theory Spec2Isabelle
  imports Main "HOL-Library.Multiset"
begin

section \<open>JavaScript containers\<close>

text \<open>
  A JavaScript \<^verbatim>\<open>Map\<close> iterates in insertion order, so it is an association list
  with distinct keys: \<^verbatim>\<open>set\<close> on an existing key replaces the value in place, on a new
  key it appends. A \<^verbatim>\<open>Set\<close> built from an array keeps the first occurrence of each
  element, in order.
\<close>

fun map_set :: "('k \<times> 'v) list \<Rightarrow> 'k \<Rightarrow> 'v \<Rightarrow> ('k \<times> 'v) list" where
  "map_set [] k v = [(k, v)]"
| "map_set ((k', v') # kvs) k v =
     (if k' = k then (k, v) # kvs else (k', v') # map_set kvs k v)"

definition map_has :: "('k \<times> 'v) list \<Rightarrow> 'k \<Rightarrow> bool" where
  "map_has kvs k = (map_of kvs k \<noteq> None)"

definition map_delete :: "('k \<times> 'v) list \<Rightarrow> 'k \<Rightarrow> ('k \<times> 'v) list" where
  "map_delete kvs k = filter (\<lambda>kv. fst kv \<noteq> k) kvs"

definition map_keys :: "('k \<times> 'v) list \<Rightarrow> 'k list" where
  "map_keys kvs = map fst kvs"

fun new_Set :: "'a list \<Rightarrow> 'a list" where
  "new_Set [] = []"
| "new_Set (x # xs) = x # filter (\<lambda>y. y \<noteq> x) (new_Set xs)"

section \<open>Errors\<close>

datatype error =
    ModuleAlreadyRegistered string
  | ModuleNotFound string
  | ModuleRequiredBy string "string list"
  | DependencyNotRegistered string string
  | CircularDependency string
  | InitialiserFailed string
  | RouteAlreadyRegistered string
  | MiddlewareAlreadyRegistered string
  | OutOfFuel

section \<open>ModuleManager (src/core/module-manager.ts)\<close>

text \<open>
  A module (interface \<^verbatim>\<open>IModule\<close>) carries its name, its declared dependencies and the
  answer of \<^verbatim>\<open>isEnabled()\<close>. Its two hooks are opaque asynchronous functions; what the
  manager can observe of a hook is whether it completes or throws, so each hook is the
  flag saying that it throws.
\<close>

record module =
  name :: string
  dependencies :: "string list"
  isEnabled :: bool
  initialise_throws :: bool
  shutdown_throws :: bool

record manager =
  modules :: "(string \<times> module) list"
  dependencyGraph :: "(string \<times> string list) list"
  isInitialised :: bool

definition new_manager :: manager where
  "new_manager = \<lparr>modules = [], dependencyGraph = [], isInitialised = False\<rparr>"

text \<open>What the hooks did, in the order in which the manager awaited them.\<close>

datatype event =
    InitCompleted string
  | InitThrew string
  | ShutdownCompleted string
  | ShutdownThrew string

definition buildDependencyGraph :: "manager \<Rightarrow> module \<Rightarrow> manager" where
  "buildDependencyGraph m md =
     m\<lparr>dependencyGraph := map_set (dependencyGraph m) (name md) (new_Set (dependencies md))\<rparr>"

definition register :: "manager \<Rightarrow> module \<Rightarrow> error + manager" where
  "register m md =
     (if map_has (modules m) (name md) then Inl (ModuleAlreadyRegistered (name md))
      else Inr (buildDependencyGraph (m\<lparr>modules := map_set (modules m) (name md) md\<rparr>) md))"

definition findDependents :: "manager \<Rightarrow> string \<Rightarrow> string list" where
  "findDependents m moduleName =
     map fst (filter (\<lambda>(md, deps). moduleName \<in> set deps) (dependencyGraph m))"

definition unregister :: "manager \<Rightarrow> string \<Rightarrow> error + manager" where
  "unregister m moduleName =
     (case map_of (modules m) moduleName of
        None \<Rightarrow> Inl (ModuleNotFound moduleName)
      | Some md \<Rightarrow>
          (let dependents = findDependents m moduleName in
           if length dependents > 0 then Inl (ModuleRequiredBy moduleName dependents)
           else Inr (m\<lparr>modules := map_delete (modules m) moduleName,
                        dependencyGraph := map_delete (dependencyGraph m) moduleName\<rparr>)))"

text \<open>
  \<^verbatim>\<open>this.dependencyGraph.get(moduleName) || new Set()\<close>: a name without an entry has no
  dependencies.
\<close>

definition graph_get :: "(string \<times> string list) list \<Rightarrow> string \<Rightarrow> string list" where
  "graph_get g moduleName = (case map_of g moduleName of Some deps \<Rightarrow> deps | None \<Rightarrow> [])"

text \<open>
  A \<^verbatim>\<open>for ... of\<close> loop whose body may throw: the first error ends the loop. The body
  results are \<open>Inl\<close> for a thrown error and \<open>Inr\<close> for the state after the iteration.
\<close>

fun for_each :: "('a \<Rightarrow> 's \<Rightarrow> error + 's) \<Rightarrow> 'a list \<Rightarrow> 's \<Rightarrow> error + 's" where
  "for_each body [] s = Inr s"
| "for_each body (x # xs) s =
     (case body x s of Inl e \<Rightarrow> Inl e | Inr s' \<Rightarrow> for_each body xs s')"

subsection \<open>detectCircularDependencies\<close>

record detect_state =
  visited :: "string set"
  recursionStack :: "string set"

text \<open>
  The closure \<^verbatim>\<open>visit\<close> is recursive through the loop over the dependencies. Its
  recursion depth is the first argument: a call that would go deeper answers
  \<open>Inl OutOfFuel\<close>, a value the source cannot produce.
\<close>

primrec detect_visit ::
  "nat \<Rightarrow> (string \<times> string list) list \<Rightarrow> string \<Rightarrow> detect_state \<Rightarrow> error + (bool \<times> detect_state)"
where
  "detect_visit 0 g moduleName s = Inl OutOfFuel"
| "detect_visit (Suc fuel) g moduleName s =
     (if moduleName \<in> recursionStack s then Inr (True, s)
      else if moduleName \<in> visited s then Inr (False, s)
      else
        (case for_each
                (\<lambda>dependency s1.
                   case detect_visit fuel g dependency s1 of
                     Inl e \<Rightarrow> Inl e
                   | Inr (True, s2) \<Rightarrow> Inl (CircularDependency moduleName)
                   | Inr (False, s2) \<Rightarrow> Inr s2)
                (graph_get g moduleName)
                (s\<lparr>visited := insert moduleName (visited s),
                   recursionStack := insert moduleName (recursionStack s)\<rparr>)
         of Inl e \<Rightarrow> Inl e
          | Inr s3 \<Rightarrow> Inr (False, s3\<lparr>recursionStack := recursionStack s3 - {moduleName}\<rparr>)))"

definition detectCircularDependencies :: "manager \<Rightarrow> error + unit" where
  "detectCircularDependencies m =
     (case for_each
             (\<lambda>moduleName s.
                if moduleName \<notin> visited s
                then (case detect_visit (Suc (length (dependencyGraph m))) (dependencyGraph m) moduleName s of
                        Inl e \<Rightarrow> Inl e
                      | Inr (r, s') \<Rightarrow> Inr s')
                else Inr s)
             (map_keys (modules m))
             \<lparr>visited = {}, recursionStack = {}\<rparr>
      of Inl e \<Rightarrow> Inl e | Inr s \<Rightarrow> Inr ())"

definition validateDependencies :: "manager \<Rightarrow> error + unit" where
  "validateDependencies m =
     (case for_each
             (\<lambda>(moduleName, deps) u.
                for_each
                  (\<lambda>dependency u.
                     if \<not> map_has (modules m) dependency
                     then Inl (DependencyNotRegistered moduleName dependency)
                     else Inr u)
                  deps u)
             (dependencyGraph m) ()
      of Inl e \<Rightarrow> Inl e
       | Inr u \<Rightarrow> detectCircularDependencies m)"

subsection \<open>getInitialisationOrder\<close>

record order_state =
  sorted_names :: "string list"
  done_names :: "string set"
  visiting :: "string set"

primrec order_visit ::
  "nat \<Rightarrow> (string \<times> string list) list \<Rightarrow> string \<Rightarrow> order_state \<Rightarrow> error + order_state"
where
  "order_visit 0 g moduleName s = Inl OutOfFuel"
| "order_visit (Suc fuel) g moduleName s =
     (if moduleName \<in> visiting s then Inl (CircularDependency moduleName)
      else if moduleName \<in> done_names s then Inr s
      else
        (case for_each (order_visit fuel g) (graph_get g moduleName)
                (s\<lparr>visiting := insert moduleName (visiting s)\<rparr>)
         of Inl e \<Rightarrow> Inl e
          | Inr s' \<Rightarrow>
              Inr (s'\<lparr>visiting := visiting s' - {moduleName},
                      done_names := insert moduleName (done_names s'),
                      sorted_names := sorted_names s' @ [moduleName]\<rparr>)))"

definition getInitialisationOrder :: "manager \<Rightarrow> error + string list" where
  "getInitialisationOrder m =
     (case for_each
             (\<lambda>moduleName s.
                if moduleName \<notin> done_names s
                then order_visit (Suc (length (dependencyGraph m))) (dependencyGraph m) moduleName s
                else Inr s)
             (map_keys (modules m))
             \<lparr>sorted_names = [], done_names = {}, visiting = {}\<rparr>
      of Inl e \<Rightarrow> Inl e | Inr s \<Rightarrow> Inr (sorted_names s))"

subsection \<open>initialise and shutdown\<close>

text \<open>
  The loop of \<^verbatim>\<open>initialise\<close> awaits each enabled module's initialiser in turn and
  rethrows the first failure. The loop of \<^verbatim>\<open>shutdown\<close> awaits the shutdown hook of
  every module it finds and swallows failures. Both return the events in order.
\<close>

fun initialise_loop :: "(string \<times> module) list \<Rightarrow> string list \<Rightarrow> event list \<times> error option" where
  "initialise_loop mods [] = ([], None)"
| "initialise_loop mods (moduleName # rest) =
     (case map_of mods moduleName of
        None \<Rightarrow> initialise_loop mods rest
      | Some md \<Rightarrow>
          if isEnabled md then
            (if initialise_throws md
             then ([InitThrew moduleName], Some (InitialiserFailed moduleName))
             else (case initialise_loop mods rest of
                     (evs, r) \<Rightarrow> (InitCompleted moduleName # evs, r)))
          else initialise_loop mods rest)"

fun shutdown_loop :: "(string \<times> module) list \<Rightarrow> string list \<Rightarrow> event list" where
  "shutdown_loop mods [] = []"
| "shutdown_loop mods (moduleName # rest) =
     (case map_of mods moduleName of
        None \<Rightarrow> shutdown_loop mods rest
      | Some md \<Rightarrow>
          (if shutdown_throws md then ShutdownThrew moduleName
           else ShutdownCompleted moduleName) # shutdown_loop mods rest)"

text \<open>
  A call returns the manager afterwards, the hook events of the call, and the error it
  threw, if any.
\<close>

definition initialise :: "manager \<Rightarrow> manager \<times> event list \<times> error option" where
  "initialise m =
     (if isInitialised m then (m, [], None)
      else
        (case validateDependencies m of
           Inl e \<Rightarrow> (m, [], Some e)
         | Inr u \<Rightarrow>
             (case getInitialisationOrder m of
                Inl e \<Rightarrow> (m, [], Some e)
              | Inr initOrder \<Rightarrow>
                  (case initialise_loop (modules m) initOrder of
                     (evs, Some e) \<Rightarrow> (m, evs, Some e)
                   | (evs, None) \<Rightarrow> (m\<lparr>isInitialised := True\<rparr>, evs, None)))))"

definition shutdown :: "manager \<Rightarrow> manager \<times> event list \<times> error option" where
  "shutdown m =
     (if \<not> isInitialised m then (m, [], None)
      else
        (case getInitialisationOrder m of
           Inl e \<Rightarrow> (m, [], Some e)
         | Inr initOrder \<Rightarrow>
             (m\<lparr>isInitialised := False\<rparr>, shutdown_loop (modules m) (rev initOrder), None)))"

subsection \<open>Vocabulary for the properties of the manager\<close>

text \<open>
  \<open>precedes xs a b\<close>: \<open>b\<close> occurs in \<open>xs\<close> and \<open>a\<close> occurs before the first \<open>b\<close>.
\<close>

definition precedes :: "'a list \<Rightarrow> 'a \<Rightarrow> 'a \<Rightarrow> bool" where
  "precedes xs a b = (b \<in> set xs \<and> a \<in> set (takeWhile (\<lambda>x. x \<noteq> b) xs))"

text \<open>
  The state that \<^verbatim>\<open>register\<close> and \<^verbatim>\<open>unregister\<close> maintain: module names are the
  keys, no name occurs twice, and the dependency graph holds, in the same order, the set
  of each module's declared dependencies.
\<close>

definition consistent :: "manager \<Rightarrow> bool" where
  "consistent m =
     (distinct (map_keys (modules m)) \<and>
      dependencyGraph m = map (\<lambda>(n, md). (n, new_Set (dependencies md))) (modules m) \<and>
      list_all (\<lambda>(n, md). name md = n) (modules m))"

text \<open>The declared dependency edges \<open>(module, dependency)\<close> of the registered modules.\<close>

definition declared_edges :: "manager \<Rightarrow> (string \<times> string) list" where
  "declared_edges m = concat (map (\<lambda>(n, md). map (Pair n) (dependencies md)) (modules m))"

definition dependencies_registered :: "manager \<Rightarrow> bool" where
  "dependencies_registered m = list_all (\<lambda>(n, d). map_has (modules m) d) (declared_edges m)"

definition module_enabled :: "manager \<Rightarrow> string \<Rightarrow> bool" where
  "module_enabled m n = (case map_of (modules m) n of Some md \<Rightarrow> isEnabled md | None \<Rightarrow> False)"

definition initialiser_invoked :: "event list \<Rightarrow> string \<Rightarrow> bool" where
  "initialiser_invoked evs n = (InitCompleted n \<in> set evs \<or> InitThrew n \<in> set evs)"

definition completed_before :: "event list \<Rightarrow> string \<Rightarrow> string \<Rightarrow> bool" where
  "completed_before evs d n =
     (precedes evs (InitCompleted d) (InitCompleted n) \<or>
      precedes evs (InitCompleted d) (InitThrew n))"

definition shutdown_invoked :: "event list \<Rightarrow> string \<Rightarrow> bool" where
  "shutdown_invoked evs n = (ShutdownCompleted n \<in> set evs \<or> ShutdownThrew n \<in> set evs)"

text \<open>Registering a list of modules in order, from a given manager.\<close>

fun register_all :: "manager \<Rightarrow> module list \<Rightarrow> error + manager" where
  "register_all m [] = Inr m"
| "register_all m (md # mds) =
     (case register m md of Inl e \<Rightarrow> Inl e | Inr m' \<Rightarrow> register_all m' mds)"

text \<open>A module with the given name, dependencies and enabled flag whose hooks complete.\<close>

definition plain_module :: "string \<Rightarrow> string list \<Rightarrow> bool \<Rightarrow> module" where
  "plain_module n deps en =
     \<lparr>name = n, dependencies = deps, isEnabled = en,
      initialise_throws = False, shutdown_throws = False\<rparr>"

text \<open>
  Auxiliary notions of the correctness proofs of the two traversals: the edge relation
  of a graph, the names whose visit has returned (visited and off the recursion stack),
  and the invariants of the traversals.
\<close>

definition dep_rel :: "(string \<times> string list) list \<Rightarrow> (string \<times> string) set" where
  "dep_rel g = {(n, d). d \<in> set (graph_get g n)}"

definition black :: "detect_state \<Rightarrow> string set" where
  "black s = visited s - recursionStack s"

definition finished_ok :: "(string \<times> string list) list \<Rightarrow> detect_state \<Rightarrow> bool" where
  "finished_ok g s =
     (\<forall>b \<in> black s. (\<forall>d \<in> set (graph_get g b). d \<in> black s) \<and> (b, b) \<notin> (dep_rel g)\<^sup>+)"

definition topo_ok :: "(string \<times> string list) list \<Rightarrow> order_state \<Rightarrow> bool" where
  "topo_ok g s =
     (done_names s = set (sorted_names s) \<and> distinct (sorted_names s) \<and>
      done_names s \<inter> visiting s = {} \<and>
      (\<forall>n \<in> set (sorted_names s). \<forall>d \<in> set (graph_get g n). precedes (sorted_names s) d n))"

text \<open>The loop bodies of the two traversals, named.\<close>

definition detect_body ::
  "nat \<Rightarrow> (string \<times> string list) list \<Rightarrow> string \<Rightarrow> string \<Rightarrow> detect_state \<Rightarrow> error + detect_state"
where
  "detect_body fuel g moduleName =
     (\<lambda>dependency s1.
        case detect_visit fuel g dependency s1 of
          Inl e \<Rightarrow> Inl e
        | Inr (True, s2) \<Rightarrow> Inl (CircularDependency moduleName)
        | Inr (False, s2) \<Rightarrow> Inr s2)"

definition detect_top :: "manager \<Rightarrow> string \<Rightarrow> detect_state \<Rightarrow> error + detect_state" where
  "detect_top m =
     (\<lambda>moduleName s.
        if moduleName \<notin> visited s
        then (case detect_visit (Suc (length (dependencyGraph m))) (dependencyGraph m) moduleName s of
                Inl e \<Rightarrow> Inl e
              | Inr (r, s') \<Rightarrow> Inr s')
        else Inr s)"

definition order_top :: "manager \<Rightarrow> string \<Rightarrow> order_state \<Rightarrow> error + order_state" where
  "order_top m =
     (\<lambda>moduleName s.
        if moduleName \<notin> done_names s
        then order_visit (Suc (length (dependencyGraph m))) (dependencyGraph m) moduleName s
        else Inr s)"

text \<open>
  The module an event belongs to, and two managers with the same registry: the same
  modules in the same order with the same enabled flags, the same dependency graph and
  the same \<^verbatim>\<open>isInitialised\<close>; the hooks of the modules may behave differently.
\<close>

fun event_module :: "event \<Rightarrow> string" where
  "event_module (InitCompleted n) = n"
| "event_module (InitThrew n) = n"
| "event_module (ShutdownCompleted n) = n"
| "event_module (ShutdownThrew n) = n"

definition same_registry :: "manager \<Rightarrow> manager \<Rightarrow> bool" where
  "same_registry m m2 =
     (isInitialised m2 = isInitialised m \<and> dependencyGraph m2 = dependencyGraph m \<and>
      map (\<lambda>(n, md). (n, isEnabled md)) (modules m2) =
        map (\<lambda>(n, md). (n, isEnabled md)) (modules m))"

text \<open>Managers used as concrete instances below.\<close>

definition layered_manager :: manager where
  "layered_manager =
     \<lparr>modules = [(''api'', plain_module ''api'' [''auth'', ''db''] True),
                 (''auth'', plain_module ''auth'' [''db''] True),
                 (''db'', plain_module ''db'' [] True)],
      dependencyGraph = [(''api'', [''auth'', ''db'']), (''auth'', [''db'']), (''db'', [])],
      isInitialised = False\<rparr>"

definition disabled_dependency_manager :: manager where
  "disabled_dependency_manager =
     \<lparr>modules = [(''A'', plain_module ''A'' [''B''] True),
                 (''B'', plain_module ''B'' [] False)],
      dependencyGraph = [(''A'', [''B'']), (''B'', [])],
      isInitialised = False\<rparr>"

definition cyclic_manager :: manager where
  "cyclic_manager =
     \<lparr>modules = [(''A'', plain_module ''A'' [''B''] True),
                 (''B'', plain_module ''B'' [''A''] True)],
      dependencyGraph = [(''A'', [''B'']), (''B'', [''A''])],
      isInitialised = False\<rparr>"

definition cyclic_ghost_manager :: manager where
  "cyclic_ghost_manager =
     \<lparr>modules = [(''A'', plain_module ''A'' [''B'', ''ghost''] True),
                 (''B'', plain_module ''B'' [''A''] True)],
      dependencyGraph = [(''A'', [''B'', ''ghost'']), (''B'', [''A''])],
      isInitialised = False\<rparr>"

definition mixed_manager :: manager where
  "mixed_manager =
     \<lparr>modules = [(''E'', plain_module ''E'' [] True),
                 (''D'', plain_module ''D'' [] False)],
      dependencyGraph = [(''E'', []), (''D'', [])],
      isInitialised = False\<rparr>"

definition failing_manager :: manager where
  "failing_manager =
     \<lparr>modules = [(''db'', plain_module ''db'' [] True),
                 (''auth'', (plain_module ''auth'' [''db''] True)\<lparr>initialise_throws := True\<rparr>)],
      dependencyGraph = [(''db'', []), (''auth'', [''db''])],
      isInitialised = False\<rparr>"

definition recovered_manager :: manager where
  "recovered_manager =
     \<lparr>modules = [(''db'', plain_module ''db'' [] True),
                 (''auth'', plain_module ''auth'' [''db''] True)],
      dependencyGraph = [(''db'', []), (''auth'', [''db''])],
      isInitialised = False\<rparr>"

definition initialised_cyclic_manager :: manager where
  "initialised_cyclic_manager =
     \<lparr>modules = [(''A'', plain_module ''A'' [''B''] True),
                 (''B'', plain_module ''B'' [''A''] True)],
      dependencyGraph = [(''A'', [''B'']), (''B'', [''A''])],
      isInitialised = True\<rparr>"

section \<open>HttpServer (class HttpServer in src/modules/api/api-routes-module.ts)\<close>

subsection \<open>Strings\<close>

text \<open>
  \<^verbatim>\<open>String.prototype.split\<close> with a one-character separator: the pieces between the
  separators, so that a string with \<open>n\<close> separators has \<open>n + 1\<close> pieces, some of them
  possibly empty; \<^verbatim>\<open>startsWith\<close>, \<^verbatim>\<open>includes\<close>, and \<^verbatim>\<open>Array.prototype.toString\<close>
  on an array of strings. \<open>str_includes\<close> is \<^verbatim>\<open>includes\<close>.
\<close>

fun split :: "char \<Rightarrow> string \<Rightarrow> string list" where
  "split sep [] = [[]]"
| "split sep (c # cs) =
     (if c = sep then [] # split sep cs
      else (case split sep cs of w # ws \<Rightarrow> (c # w) # ws | [] \<Rightarrow> [[c]]))"

fun startsWith :: "string \<Rightarrow> string \<Rightarrow> bool" where
  "startsWith s [] = True"
| "startsWith [] (c # cs) = False"
| "startsWith (x # xs) (c # cs) = (x = c \<and> startsWith xs cs)"

fun str_includes :: "string \<Rightarrow> string \<Rightarrow> bool" where
  "str_includes [] sub = (sub = [])"
| "str_includes (x # xs) sub = (startsWith (x # xs) sub \<or> str_includes xs sub)"

fun join_comma :: "string list \<Rightarrow> string" where
  "join_comma [] = []"
| "join_comma [x] = x"
| "join_comma (x # y # ys) = x @ '','' @ join_comma (y # ys)"

subsection \<open>Requests, responses and the platform\<close>

datatype json =
    JNull
  | JBool bool
  | JNumber int
  | JString string
  | JArray "json list"
  | JObject "(string \<times> json) list"

text \<open>
  What a request can throw: the failures of parsing, the \<^verbatim>\<open>TypeError\<close> of calling what is
  not a function, the errors of \<^verbatim>\<open>res.setHeader\<close> (\<^verbatim>\<open>ERR_HTTP_HEADERS_SENT\<close>,
  \<^verbatim>\<open>ERR_INVALID_HTTP_TOKEN\<close>, \<^verbatim>\<open>ERR_INVALID_CHAR\<close>) and of \<^verbatim>\<open>res.end\<close>
  (\<^verbatim>\<open>ERR_HTTP_INVALID_STATUS_CODE\<close>), and whatever a handler throws. \<open>DepthExceeded\<close> is
  not an error of the source: it marks the bound on the nesting of the middleware chains
  below.
\<close>

datatype http_error =
    InvalidURL
  | SyntaxError
  | StreamError string
  | TypeError string
  | HeadersSent
  | InvalidHttpToken
  | InvalidChar
  | InvalidStatusCode
  | Thrown string
  | DepthExceeded

text \<open>
  Node's \<^verbatim>\<open>IncomingMessage\<close>: method, request target, headers (Node lower-cases the
  names), and the body stream, which delivers its chunks and then ends or fails.
\<close>

record IncomingMessage =
  req_method :: string
  req_url :: string
  req_headers :: "(string \<times> string) list"
  req_chunks :: "string list"
  req_error :: "string option"

text \<open>
  The request object handed to middlewares and handlers; its field \<^verbatim>\<open>method\<close> is
  \<open>http_method\<close> here.
\<close>

record HttpRequest =
  http_method :: string
  url :: string
  pathname :: string
  headers :: "(string \<times> string) list"
  body :: "json option"
  params :: "(string \<times> string) list"
  query :: "(string \<times> string) list"

text \<open>
  Node's \<^verbatim>\<open>ServerResponse\<close>, as far as the server uses it: the property \<^verbatim>\<open>statusCode\<close>,
  the header map (names are compared as they are written), and the answer that went to
  the client, if \<^verbatim>\<open>end\<close> has been called: the status and the headers as they were at that
  moment, and what was handed to \<^verbatim>\<open>end\<close> (a text, or the \<^verbatim>\<open>JSON.stringify\<close> of a value).
  The server never calls \<^verbatim>\<open>write\<close> or \<^verbatim>\<open>writeHead\<close>, so the headers have been sent exactly
  when the response has been ended. A new response has status 200 and no headers.
\<close>

datatype payload = Text string | Stringified json

record answer =
  ans_status :: nat
  ans_headers :: "(string \<times> string) list"
  ans_body :: payload

record ServerResponse =
  statusCode :: nat
  res_headers :: "(string \<times> string) list"
  sent :: "answer option"

definition new_response :: ServerResponse where
  "new_response = \<lparr>statusCode = 200, res_headers = [], sent = None\<rparr>"

text \<open>
  \<^verbatim>\<open>res.setHeader\<close> throws \<^verbatim>\<open>ERR_HTTP_HEADERS_SENT\<close> once the headers have been sent.
  Otherwise it checks the name, which must be a non-empty HTTP token (letters, digits
  and some punctuation marks, given here by their codes), and then the value, which must
  not contain a control character other than the tab. \<^verbatim>\<open>res.end\<close> sends the answer,
  and throws instead when the status code is not between 100 and 999; on a response
  that has been ended it sends nothing more (the server cannot reach that case: every
  call of \<^verbatim>\<open>end\<close> follows a call of \<^verbatim>\<open>setHeader\<close>). Assigning \<^verbatim>\<open>statusCode\<close> never
  throws, and after the answer has been sent it no longer changes the answer. A function
  that can throw returns the object as it is afterwards and the error thrown, if any.
\<close>

definition token_char :: "char \<Rightarrow> bool" where
  "token_char c =
     (let n = (of_char c :: nat) in
      (48 \<le> n \<and> n \<le> 57) \<or> (65 \<le> n \<and> n \<le> 90) \<or> (94 \<le> n \<and> n \<le> 122) \<or>
      n \<in> {33, 35, 36, 37, 38, 39, 42, 43, 45, 46, 124, 126})"

definition header_char :: "char \<Rightarrow> bool" where
  "header_char c = (let n = (of_char c :: nat) in n = 9 \<or> (32 \<le> n \<and> n \<le> 126) \<or> 128 \<le> n)"

definition valid_header_name :: "string \<Rightarrow> bool" where
  "valid_header_name k = (k \<noteq> [] \<and> list_all token_char k)"

definition valid_header_value :: "string \<Rightarrow> bool" where
  "valid_header_value v = list_all header_char v"

definition setHeader :: "ServerResponse \<Rightarrow> string \<Rightarrow> string \<Rightarrow> ServerResponse \<times> http_error option" where
  "setHeader res k v =
     (if sent res \<noteq> None then (res, Some HeadersSent)
      else if \<not> valid_header_name k then (res, Some InvalidHttpToken)
      else if \<not> valid_header_value v then (res, Some InvalidChar)
      else (res\<lparr>res_headers := map_set (res_headers res) k v\<rparr>, None))"

definition end_response :: "ServerResponse \<Rightarrow> payload \<Rightarrow> ServerResponse \<times> http_error option" where
  "end_response res d =
     (if sent res \<noteq> None then (res, None)
      else if statusCode res < 100 \<or> 999 < statusCode res then (res, Some InvalidStatusCode)
      else (res\<lparr>sent := Some \<lparr>ans_status = statusCode res, ans_headers = res_headers res,
                               ans_body = d\<rparr>\<rparr>, None))"

text \<open>
  The two library functions the parser calls are parameters: \<^verbatim>\<open>new URL(url, base)\<close>
  gives the path name and the query entries or throws, \<^verbatim>\<open>JSON.parse\<close> gives a value or
  throws.
\<close>

record platform =
  URL_parse :: "string \<Rightarrow> string \<Rightarrow> (string \<times> (string \<times> string) list) option"
  JSON_parse :: "string \<Rightarrow> json option"

datatype origin = OriginString string | OriginList "string list"

record cors_config =
  origin :: origin
  credentials :: bool

record ServerConfig =
  port :: nat
  host :: string
  cors :: "cors_config option"

datatype HttpMethod = Get | Post | Put | Delete | Patch | Head | Options

fun toUpperCase :: "HttpMethod \<Rightarrow> string" where
  "toUpperCase Get = ''GET''"
| "toUpperCase Post = ''POST''"
| "toUpperCase Put = ''PUT''"
| "toUpperCase Delete = ''DELETE''"
| "toUpperCase Patch = ''PATCH''"
| "toUpperCase Head = ''HEAD''"
| "toUpperCase Options = ''OPTIONS''"

subsection \<open>The response wrapper (createResponse)\<close>

text \<open>
  \<^verbatim>\<open>createResponse(res)\<close> builds the object that middlewares and handlers receive as
  \<^verbatim>\<open>HttpResponse\<close>. It has exactly four methods, \<^verbatim>\<open>status\<close>, \<^verbatim>\<open>json\<close>, \<^verbatim>\<open>send\<close> and
  \<^verbatim>\<open>header\<close>, which act on the Node response \<^verbatim>\<open>res\<close> that it closes over:
  the wrapper of a response is that response under a constructor, and \<open>wrapped\<close> reads
  the Node response behind it. \<open>json_response\<close> is the method \<^verbatim>\<open>json\<close>. The methods
  throw what \<^verbatim>\<open>res.setHeader\<close> and \<^verbatim>\<open>res.end\<close> throw.
\<close>

datatype HttpResponse = createResponse ServerResponse

fun wrapped :: "HttpResponse \<Rightarrow> ServerResponse" where
  "wrapped (createResponse res) = res"

fun status :: "HttpResponse \<Rightarrow> nat \<Rightarrow> HttpResponse" where
  "status (createResponse res) code = createResponse (res\<lparr>statusCode := code\<rparr>)"

fun json_response :: "HttpResponse \<Rightarrow> json \<Rightarrow> HttpResponse \<times> http_error option" where
  "json_response (createResponse res) data =
     (case setHeader res ''Content-Type'' ''application/json'' of
        (res', Some e) \<Rightarrow> (createResponse res', Some e)
      | (res', None) \<Rightarrow>
          (case end_response res' (Stringified data) of (res'', e) \<Rightarrow> (createResponse res'', e)))"

fun send :: "HttpResponse \<Rightarrow> string \<Rightarrow> HttpResponse \<times> http_error option" where
  "send (createResponse res) data =
     (case setHeader res ''Content-Type'' ''text/plain'' of
        (res', Some e) \<Rightarrow> (createResponse res', Some e)
      | (res', None) \<Rightarrow>
          (case end_response res' (Text data) of (res'', e) \<Rightarrow> (createResponse res'', e)))"

fun header :: "HttpResponse \<Rightarrow> string \<Rightarrow> string \<Rightarrow> HttpResponse \<times> http_error option" where
  "header (createResponse res) k v =
     (case setHeader res k v of (res', e) \<Rightarrow> (createResponse res', e))"

subsection \<open>Handlers and the closure next\<close>

text \<open>
  The request object and the response are shared by everything that handles one
  request; an \<open>exchange\<close> is the pair of them as they are at some moment. A route handler
  is a function of the two; it returns them as it left them, and the error it threw, if
  any.
\<close>

type_synonym exchange = "HttpRequest \<times> HttpResponse"

type_synonym outcome = "exchange \<times> http_error option"

type_synonym RouteHandler = "HttpRequest \<Rightarrow> HttpResponse \<Rightarrow> outcome"

text \<open>
  A middleware also receives \<^verbatim>\<open>next\<close>. What it does with the objects \<open>'w\<close> it works on
  is a \<open>step\<close>: it finishes, leaving the objects as they are then and possibly throwing;
  or it calls \<^verbatim>\<open>next\<close>, with the objects as it has left them so far, awaits the call, and
  goes on from how the call settled, that is, from the objects as they are then and the
  error of the call, if it was rejected. A middleware that does not catch that error
  finishes with it. A middleware may call \<^verbatim>\<open>next\<close> any finite number of times.

  Every call of \<^verbatim>\<open>next\<close> is awaited here (\<^verbatim>\<open>await next()\<close>, or \<^verbatim>\<open>return next()\<close> as
  the last action). A middleware that calls \<^verbatim>\<open>next\<close> and goes on without awaiting it is
  not described by a \<open>step\<close>: the rest of the chain would then go on after the middleware
  has returned, in an order that depends on how Node schedules the reactions of promises,
  and what it throws would reach nobody, the listener of \<^verbatim>\<open>createServer\<close> included.
\<close>

datatype 'w step =
    Finish "'w \<times> http_error option"
  | AwaitNext 'w "'w \<times> http_error option \<Rightarrow> 'w step"

text \<open>
  Both chains of the source keep a cursor in a variable that the closure \<^verbatim>\<open>next\<close>
  captures, so that all calls of \<^verbatim>\<open>next\<close> during one request share it. \<open>run_step\<close> runs
  a step with the closure \<open>nxt\<close>; \<open>s\<close> is what the closure has captured, which only the
  closure itself changes.
\<close>

primrec run_step ::
  "('s \<Rightarrow> 'w \<Rightarrow> 's \<times> 'w \<times> http_error option) \<Rightarrow> 'w step \<Rightarrow> 's \<Rightarrow> 's \<times> 'w \<times> http_error option"
where
  "run_step nxt (Finish r) s = (s, r)"
| "run_step nxt (AwaitNext w k) s = (case nxt s w of (s', r) \<Rightarrow> run_step nxt (k r) s')"

record HttpMiddleware =
  mw_name :: string
  handler :: "HttpRequest \<Rightarrow> HttpResponse \<Rightarrow> exchange step"

record HttpServer =
  config :: ServerConfig
  routes :: "(string \<times> RouteHandler) list"
  middlewares :: "HttpMiddleware list"

subsection \<open>Parsing\<close>

definition parseBody :: "platform \<Rightarrow> IncomingMessage \<Rightarrow> http_error + json" where
  "parseBody P req =
     (case req_error req of
        Some message \<Rightarrow> Inl (StreamError message)
      | None \<Rightarrow>
          (let body = concat (req_chunks req);
               contentType = (case map_of (req_headers req) ''content-type'' of
                                Some v \<Rightarrow> v
                              | None \<Rightarrow> [])
           in if str_includes contentType ''application/json''
              then (if body \<noteq> []
                    then (case JSON_parse P body of
                            None \<Rightarrow> Inl SyntaxError
                          | Some v \<Rightarrow> Inr v)
                    else Inr (JObject []))
              else Inr (JString body)))"

definition fromEntries :: "(string \<times> string) list \<Rightarrow> (string \<times> string) list" where
  "fromEntries entries = foldl (\<lambda>acc (k, v). map_set acc k v) [] entries"

definition parseRequest :: "platform \<Rightarrow> IncomingMessage \<Rightarrow> http_error + HttpRequest" where
  "parseRequest P req =
     (case URL_parse P (req_url req)
             (''http://'' @ (case map_of (req_headers req) ''host'' of
                               Some h \<Rightarrow> h | None \<Rightarrow> ''undefined'')) of
        None \<Rightarrow> Inl InvalidURL
      | Some (path, searchParams) \<Rightarrow>
          (case (if req_method req \<in> set [''POST'', ''PUT'', ''PATCH'']
                 then map_sum id Some (parseBody P req)
                 else Inr None) of
             Inl e \<Rightarrow> Inl e
           | Inr b \<Rightarrow>
               Inr \<lparr>http_method = req_method req, url = req_url req, pathname = path,
                    headers = req_headers req, body = b, params = [],
                    query = fromEntries searchParams\<rparr>))"

subsection \<open>CORS headers and error responses\<close>

text \<open>
  \<open>origin_text\<close> is \<^verbatim>\<open>(this.config.cors?.origin || "*").toString()\<close>, the value that
  \<^verbatim>\<open>applyCORSHeaders\<close> gives to the first header.
\<close>

definition origin_text :: "ServerConfig \<Rightarrow> string" where
  "origin_text cfg =
     (case cors cfg of
        None \<Rightarrow> ''*''
      | Some c \<Rightarrow>
          (case origin c of
             OriginString s \<Rightarrow> (if s = [] then ''*'' else s)
           | OriginList xs \<Rightarrow> join_comma xs))"

definition applyCORSHeaders :: "ServerConfig \<Rightarrow> HttpResponse \<Rightarrow> HttpResponse \<times> http_error option" where
  "applyCORSHeaders cfg response =
     (let creds = (case cors cfg of None \<Rightarrow> False | Some c \<Rightarrow> credentials c)
      in case header response ''Access-Control-Allow-Origin'' (origin_text cfg) of
           (r1, Some e) \<Rightarrow> (r1, Some e)
         | (r1, None) \<Rightarrow>
      (case header r1 ''Access-Control-Allow-Methods'' ''GET, POST, PUT, DELETE, PATCH, OPTIONS'' of
           (r2, Some e) \<Rightarrow> (r2, Some e)
         | (r2, None) \<Rightarrow>
      (case header r2 ''Access-Control-Allow-Headers''
              ''Content-Type, Authorization, X-Requested-With'' of
           (r3, Some e) \<Rightarrow> (r3, Some e)
         | (r3, None) \<Rightarrow>
             if creds then header r3 ''Access-Control-Allow-Credentials'' ''true''
             else (r3, None))))"

text \<open>
  \<^verbatim>\<open>sendErrorResponse(response: any, status, message)\<close> assigns \<^verbatim>\<open>statusCode\<close> and calls
  \<^verbatim>\<open>setHeader\<close> and \<^verbatim>\<open>end\<close> on whatever object it is given. The listener of
  \<^verbatim>\<open>createServer\<close> gives it the Node response: if an answer has been sent already, the
  assignment changes only the property, \<^verbatim>\<open>setHeader\<close> throws, and the client keeps the
  answer it has. \<^verbatim>\<open>executeRoute\<close> gives it the wrapper (cast to \<^verbatim>\<open>any\<close>). On the wrapper
  the assignment only creates a property that nothing reads, and the call of
  \<^verbatim>\<open>setHeader\<close>, which the wrapper does not have, throws a \<^verbatim>\<open>TypeError\<close>; the Node
  response behind the wrapper is not touched. The function returns the Node response
  afterwards and the error thrown, if any.
\<close>

datatype any_response = Wrapper HttpResponse | Node ServerResponse

fun sendErrorResponse :: "any_response \<Rightarrow> nat \<Rightarrow> string \<Rightarrow> ServerResponse \<times> http_error option" where
  "sendErrorResponse (Node res) st message =
     (case setHeader (res\<lparr>statusCode := st\<rparr>) ''Content-Type'' ''application/json'' of
        (res', Some e) \<Rightarrow> (res', Some e)
      | (res', None) \<Rightarrow> end_response res' (Stringified (JObject [(''error'', JString message)])))"
| "sendErrorResponse (Wrapper response) st message =
     (wrapped response, Some (TypeError ''response.setHeader is not a function''))"

subsection \<open>Routing\<close>

text \<open>
  The loop of \<^verbatim>\<open>matchRoute\<close> over the two arrays of segments, which have the same
  length when it starts; \<open>ps\<close> is the \<^verbatim>\<open>params\<close> object built so far.
\<close>

fun matchRoute_loop ::
  "string list \<Rightarrow> string list \<Rightarrow> (string \<times> string) list \<Rightarrow> (string \<times> string) list option"
where
  "matchRoute_loop [] [] ps = Some ps"
| "matchRoute_loop (patternPart # patternParts) (pathPart # pathParts) ps =
     (if patternPart = [] \<or> pathPart = [] then None
      else if startsWith patternPart '':''
      then matchRoute_loop patternParts pathParts (map_set ps (tl patternPart) pathPart)
      else if patternPart \<noteq> pathPart then None
      else matchRoute_loop patternParts pathParts ps)"
| "matchRoute_loop _ _ ps = None"

definition matchRoute :: "string \<Rightarrow> string \<Rightarrow> (string \<times> string) list option" where
  "matchRoute pattern path =
     (let patternParts = split CHR ''/'' pattern;
          pathParts = split CHR ''/'' path
      in if length patternParts \<noteq> length pathParts then None
         else matchRoute_loop patternParts pathParts [])"

fun findParameterizedRoute ::
  "(string \<times> RouteHandler) list \<Rightarrow> string \<Rightarrow> string \<Rightarrow>
     (RouteHandler \<times> (string \<times> string) list) option"
where
  "findParameterizedRoute [] meth path = None"
| "findParameterizedRoute ((routeKey, h) # rest) meth path =
     (case split CHR '':'' routeKey of
        routeMethod # routePath # _ \<Rightarrow>
          (if routeMethod \<noteq> meth \<or> routePath = []
           then findParameterizedRoute rest meth path
           else (case matchRoute routePath path of
                   Some ps \<Rightarrow> Some (h, ps)
                 | None \<Rightarrow> findParameterizedRoute rest meth path))
      | _ \<Rightarrow> findParameterizedRoute rest meth path)"

definition executeRoute :: "HttpServer \<Rightarrow> HttpRequest \<Rightarrow> HttpResponse \<Rightarrow> outcome" where
  "executeRoute srv request response =
     (let routeKey = http_method request @ '':'' @ pathname request in
      case map_of (routes srv) routeKey of
        Some h \<Rightarrow> h request response
      | None \<Rightarrow>
          (case findParameterizedRoute (routes srv) (http_method request) (pathname request) of
             Some (h, ps) \<Rightarrow> h (request\<lparr>params := ps\<rparr>) response
           | None \<Rightarrow>
               (case sendErrorResponse (Wrapper response) 404 ''Not Found'' of
                  (res, e) \<Rightarrow> ((request, createResponse res), e))))"

definition registerRoute :: "HttpServer \<Rightarrow> HttpMethod \<Rightarrow> string \<Rightarrow> RouteHandler \<Rightarrow> HttpServer" where
  "registerRoute srv m path h =
     srv\<lparr>routes := map_set (routes srv) (toUpperCase m @ '':'' @ path) h\<rparr>"


subsection \<open>Handling a request\<close>

text \<open>
  The closure \<^verbatim>\<open>next\<close> of \<^verbatim>\<open>handleRequest\<close>. While the cursor \<^verbatim>\<open>middlewareIndex\<close> is
  inside \<^verbatim>\<open>this.middlewares\<close>, a call takes the middleware at the cursor, moves the
  cursor on, and runs the handler with the same closure; once the cursor is past the
  end, every call dispatches to the route. It returns the cursor, the exchange and the
  error when the call has settled.

  The closure calls the handlers and the handlers call the closure. The first argument
  bounds the depth of these nested calls: a call that would go deeper settles with
  \<open>DepthExceeded\<close>. Every call from a handler finds the cursor past that handler, so the
  depth is at most the number of middlewares left plus one, and \<^verbatim>\<open>handleRequest\<close> starts
  with that bound (lemma \<open>next_middleware_depth\<close>: from there on the bound does not
  matter).
\<close>

primrec next_middleware :: "nat \<Rightarrow> HttpServer \<Rightarrow> nat \<Rightarrow> exchange \<Rightarrow> nat \<times> outcome" where
  "next_middleware 0 srv middlewareIndex x = (middlewareIndex, x, Some DepthExceeded)"
| "next_middleware (Suc depth) srv middlewareIndex x =
     (if middlewareIndex < length (middlewares srv)
      then run_step (next_middleware depth srv)
             (handler (middlewares srv ! middlewareIndex) (fst x) (snd x))
             (Suc middlewareIndex)
      else (middlewareIndex, executeRoute srv (fst x) (snd x)))"

text \<open>
  \<^verbatim>\<open>handleRequest\<close> returns the Node response as it is when the call settles, and the
  error it was rejected with, if any.
\<close>

definition handleRequest ::
  "platform \<Rightarrow> HttpServer \<Rightarrow> IncomingMessage \<Rightarrow> ServerResponse \<Rightarrow> ServerResponse \<times> http_error option"
where
  "handleRequest P srv req res =
     (case parseRequest P req of
        Inl e \<Rightarrow> (res, Some e)
      | Inr request \<Rightarrow>
          (case applyCORSHeaders (config srv) (createResponse res) of
             (response, Some e) \<Rightarrow> (wrapped response, Some e)
           | (response, None) \<Rightarrow>
               if http_method request = ''OPTIONS''
               then (case send (status response 200) [] of (r, e) \<Rightarrow> (wrapped r, e))
               else (case next_middleware (Suc (length (middlewares srv))) srv 0 (request, response) of
                       (i, (rq, rs), e) \<Rightarrow> (wrapped rs, e))))"

text \<open>
  The request listener that \<^verbatim>\<open>createServer\<close> installs. Node calls it with the request
  and a response on which nothing has been set or sent (\<open>new_response\<close>). Its result is
  the Node response when the listener is done, and the error that escaped it, if any:
  what \<^verbatim>\<open>sendErrorResponse\<close> throws inside the \<^verbatim>\<open>catch\<close> block is caught by nobody.
\<close>

definition createServer ::
  "platform \<Rightarrow> HttpServer \<Rightarrow> IncomingMessage \<Rightarrow> ServerResponse \<Rightarrow> ServerResponse \<times> http_error option"
where
  "createServer P srv req res =
     (case handleRequest P srv req res of
        (res', None) \<Rightarrow> (res', None)
      | (res', Some e) \<Rightarrow> sendErrorResponse (Node res') 500 ''Internal Server Error'')"

section \<open>RouteManager (class RouteManager, route-manager.ts)\<close>

record Route =
  route_method :: HttpMethod
  route_path :: string
  route_handler :: RouteHandler
  route_middleware :: "string list"
  route_description :: "string option"
  route_tags :: "string list"

record RouteOptions =
  opt_middleware :: "string list option"
  opt_description :: "string option"
  opt_tags :: "string list option"

record RouteManager =
  rm_routes :: "(string \<times> Route) list"
  routeGroups :: "string list"

definition RouteManager_register ::
  "RouteManager \<Rightarrow> HttpMethod \<Rightarrow> string \<Rightarrow> RouteHandler \<Rightarrow> RouteOptions option \<Rightarrow> error + RouteManager"
where
  "RouteManager_register rm m path h options =
     (let routeKey = toUpperCase m @ '':'' @ path in
      if map_has (rm_routes rm) routeKey then Inl (RouteAlreadyRegistered routeKey)
      else
        Inr (rm\<lparr>rm_routes := map_set (rm_routes rm) routeKey
                  \<lparr>route_method = m, route_path = path, route_handler = h,
                   route_middleware = (case Option.bind options opt_middleware of
                                         Some ms \<Rightarrow> ms | None \<Rightarrow> []),
                   route_description = Option.bind options opt_description,
                   route_tags = (case Option.bind options opt_tags of
                                   Some ts \<Rightarrow> ts | None \<Rightarrow> [])\<rparr>\<rparr>))"

section \<open>MiddlewareManager (class MiddlewareManager in src/config/config-provider.ts)\<close>










section \<open>Vocabulary for the properties of the HTTP server and the middleware manager\<close>

text \<open>
  A middleware passes on when, on a response that has not been sent, all it does is
  await \<^verbatim>\<open>next\<close> and return how that settled, possibly after changing the response
  without sending it and parts of the request other than the method and the path.
\<close>

definition passes_on :: "HttpMiddleware \<Rightarrow> bool" where
  "passes_on mw =
     (\<forall>rq rs. sent (wrapped rs) = None \<longrightarrow>
        (\<exists>rq' rs'. handler mw rq rs = AwaitNext (rq', rs') Finish \<and>
           http_method rq' = http_method rq \<and> pathname rq' = pathname rq \<and>
           sent (wrapped rs') = None))"

text \<open>No registered route matches: neither the exact key nor a parameterised pattern.\<close>

definition no_route :: "HttpServer \<Rightarrow> string \<Rightarrow> string \<Rightarrow> bool" where
  "no_route srv meth path =
     (map_of (routes srv) (meth @ '':'' @ path) = None \<and>
      findParameterizedRoute (routes srv) meth path = None)"

text \<open>
  The answer sent on the response has the given status and the JSON body
  \<^verbatim>\<open>{error: message}\<close>.
\<close>

definition answers_error :: "ServerResponse \<Rightarrow> nat \<Rightarrow> string \<Rightarrow> bool" where
  "answers_error res st message =
     (case sent res of
        None \<Rightarrow> False
      | Some a \<Rightarrow>
          ans_status a = st \<and> ans_body a = Stringified (JObject [(''error'', JString message)]))"

text \<open>The methods whose body is read, the buffered body, and the JSON content type test.\<close>

definition body_methods :: "string set" where
  "body_methods = {''POST'', ''PUT'', ''PATCH''}"

definition buffered_body :: "IncomingMessage \<Rightarrow> string" where
  "buffered_body req = concat (req_chunks req)"

definition json_content_type :: "IncomingMessage \<Rightarrow> bool" where
  "json_content_type req =
     (case map_of (req_headers req) ''content-type'' of
        Some v \<Rightarrow> str_includes v ''application/json''
      | None \<Rightarrow> False)"

text \<open>
  The base URL that \<^verbatim>\<open>parseRequest\<close> builds from the \<^verbatim>\<open>Host\<close> header.
\<close>

definition base_url :: "IncomingMessage \<Rightarrow> string" where
  "base_url req =
     ''http://'' @ (case map_of (req_headers req) ''host'' of Some h \<Rightarrow> h | None \<Rightarrow> ''undefined'')"

text \<open>
  The response wrapper after \<^verbatim>\<open>applyCORSHeaders\<close> on a new response, which is what the
  middleware chain starts with.
\<close>

definition cors_response :: "HttpServer \<Rightarrow> HttpResponse" where
  "cors_response srv = fst (applyCORSHeaders (config srv) (createResponse new_response))"










text \<open>Servers, requests and a platform used as concrete instances below.\<close>

definition logging_middleware :: HttpMiddleware where
  "logging_middleware =
     \<lparr>mw_name = ''logger'',
      handler = (\<lambda>rq rs. case header rs ''X-Seen'' ''yes'' of
                            (rs', Some e) \<Rightarrow> Finish ((rq, rs'), Some e)
                          | (rs', None) \<Rightarrow> AwaitNext (rq, rs') Finish)\<rparr>"

text \<open>
  The example platform rejects the request target \<^verbatim>\<open>//\<close>, as \<^verbatim>\<open>new URL\<close> does (it has an
  empty host); of any other target it takes the part before the question mark as the
  path. It parses one JSON text.
\<close>

definition example_platform :: platform where
  "example_platform =
     \<lparr>URL_parse = (\<lambda>u base. if u = ''//'' then None else Some (takeWhile (\<lambda>c. c \<noteq> CHR ''?'') u, [])),
      JSON_parse = (\<lambda>s. if s = ''{\"a\":1}'' then Some (JObject [(''a'', JNumber 1)]) else None)\<rparr>"

definition plain_server :: HttpServer where
  "plain_server =
     \<lparr>config = \<lparr>port = 3000, host = ''localhost'', cors = None\<rparr>,
      routes = [], middlewares = [logging_middleware]\<rparr>"

definition request_for :: "string \<Rightarrow> string \<Rightarrow> (string \<times> string) list \<Rightarrow> string list \<Rightarrow> IncomingMessage" where
  "request_for m u hs chunks =
     \<lparr>req_method = m, req_url = u, req_headers = hs, req_chunks = chunks, req_error = None\<rparr>"

definition reply :: "string \<Rightarrow> RouteHandler" where
  "reply s =
     (\<lambda>rq rs. case json_response (status rs 200) (JObject [(''served_by'', JString s)]) of
                 (rs', e) \<Rightarrow> ((rq, rs'), e))"




text \<open>A server whose configured origin contains a line feed.\<close>

definition broken_origin_server :: HttpServer where
  "broken_origin_server =
     \<lparr>config = \<lparr>port = 3000, host = ''localhost'',
                 cors = Some \<lparr>origin = OriginString [CHR ''a'', CHR 0x0A, CHR ''b''],
                              credentials = False\<rparr>\<rparr>,
      routes = [], middlewares = []\<rparr>"


definition health_request :: HttpRequest where
  "health_request =
     \<lparr>http_method = ''GET'', url = ''/health'', pathname = ''/health'', headers = [],
      body = None, params = [], query = []\<rparr>"

section \<open>Properties of the module manager\<close>

subsection \<open>Loops\<close>

lemma for_each_invariant_aux:
  "for_each f xs s = Inr s' \<Longrightarrow> I s \<Longrightarrow>
   (\<forall>x \<in> set xs. \<forall>t t'. I t \<longrightarrow> f x t = Inr t' \<longrightarrow> I t') \<Longrightarrow> I s'"
proof (induction xs arbitrary: s)
  case Nil
  from Nil.prems(1,2) show ?case by simp
next
  case (Cons x xs)
  from Cons.prems(1) obtain t where t: "f x s = Inr t" and rest: "for_each f xs t = Inr s'"
    by (auto split: sum.splits)
  have "x \<in> set (x # xs)" by simp
  then have "I t" using Cons.prems(2,3) t by blast
  moreover have "\<forall>x \<in> set xs. \<forall>t t'. I t \<longrightarrow> f x t = Inr t' \<longrightarrow> I t'"
    using Cons.prems(3) by (meson list.set_intros(2))
  ultimately show ?case using Cons.IH[OF rest] by blast
qed

lemma for_each_error_aux:
  "for_each f xs s = Inl e \<Longrightarrow> I s \<Longrightarrow>
   (\<forall>x \<in> set xs. \<forall>t t'. I t \<longrightarrow> f x t = Inr t' \<longrightarrow> I t') \<Longrightarrow>
   \<exists>x \<in> set xs. \<exists>t. I t \<and> f x t = Inl e"
proof (induction xs arbitrary: s)
  case Nil
  from Nil.prems(1,2) show ?case by simp
next
  case (Cons x xs)
  have hd: "x \<in> set (x # xs)" by simp
  have tl: "\<forall>x \<in> set xs. \<forall>t t'. I t \<longrightarrow> f x t = Inr t' \<longrightarrow> I t'"
    using Cons.prems(3) by (meson list.set_intros(2))
  show ?case
  proof (cases "f x s")
    case (Inl e')
    then have "f x s = Inl e" using Cons.prems(1) by simp
    then show ?thesis using Cons.prems(2) hd by blast
  next
    case (Inr t)
    then have rest: "for_each f xs t = Inl e" using Cons.prems(1) by simp
    have "I t" using Cons.prems(2,3) Inr hd by blast
    then have "\<exists>x \<in> set xs. \<exists>t. I t \<and> f x t = Inl e"
      using Cons.IH[OF rest] tl by blast
    then show ?thesis by (meson list.set_intros(2))
  qed
qed

lemma for_each_post_aux:
  "for_each f xs s = Inr s' \<Longrightarrow> I s \<Longrightarrow>
   (\<forall>x \<in> set xs. \<forall>t t'. I t \<longrightarrow> f x t = Inr t' \<longrightarrow> I t' \<and> Q x t') \<Longrightarrow>
   (\<forall>y \<in> set xs. \<forall>x t t'. I t \<longrightarrow> Q x t \<longrightarrow> f y t = Inr t' \<longrightarrow> Q x t') \<Longrightarrow>
   I s' \<and> (\<forall>x \<in> set xs. Q x s')"
proof (induction xs arbitrary: s)
  case Nil
  from Nil.prems(1,2) show ?case by simp
next
  case (Cons x xs)
  from Cons.prems(1) obtain t where t: "f x s = Inr t" and rest: "for_each f xs t = Inr s'"
    by (auto split: sum.splits)
  have hd: "x \<in> set (x # xs)" by simp
  have step: "\<forall>x \<in> set xs. \<forall>t t'. I t \<longrightarrow> f x t = Inr t' \<longrightarrow> I t' \<and> Q x t'"
    using Cons.prems(3) by (meson list.set_intros(2))
  have stable: "\<forall>y \<in> set xs. \<forall>x t t'. I t \<longrightarrow> Q x t \<longrightarrow> f y t = Inr t' \<longrightarrow> Q x t'"
    using Cons.prems(4) by (meson list.set_intros(2))
  have It: "I t \<and> Q x t" using Cons.prems(2,3) t hd by blast
  then have IH: "I s' \<and> (\<forall>x \<in> set xs. Q x s')"
    using Cons.IH[OF rest _ step stable] by blast
  have "\<forall>y \<in> set xs. \<forall>t t'. (I t \<and> Q x t) \<longrightarrow> f y t = Inr t' \<longrightarrow> (I t' \<and> Q x t')"
    using step stable by blast
  then have "I s' \<and> Q x s'"
    using for_each_invariant_aux[where I="\<lambda>u. I u \<and> Q x u", OF rest] It by blast
  then show ?case using IH by simp
qed

subsection \<open>Cycle detection\<close>

lemma detect_visit_Suc:
  "detect_visit (Suc fuel) g n s =
     (if n \<in> recursionStack s then Inr (True, s)
      else if n \<in> visited s then Inr (False, s)
      else
        (case for_each (detect_body fuel g n) (graph_get g n)
                (s\<lparr>visited := insert n (visited s),
                   recursionStack := insert n (recursionStack s)\<rparr>)
         of Inl e \<Rightarrow> Inl e
          | Inr s3 \<Rightarrow> Inr (False, s3\<lparr>recursionStack := recursionStack s3 - {n}\<rparr>)))"
  by (simp add: detect_body_def)

declare detect_visit.simps(2) [simp del]

lemma detect_body_Inr:
  "detect_body fuel g n d t = Inr t' \<longleftrightarrow> detect_visit fuel g d t = Inr (False, t')"
  by (auto simp: detect_body_def split: sum.splits bool.splits prod.splits)

lemma detect_body_Inl:
  "detect_body fuel g n d t = Inl e \<longleftrightarrow>
     detect_visit fuel g d t = Inl e \<or> (e = CircularDependency n \<and> (\<exists>t'. detect_visit fuel g d t = Inr (True, t')))"
  by (auto simp: detect_body_def split: sum.splits bool.splits prod.splits)

lemma detect_visit_state:
  "detect_visit k g n s = Inr (r, s') \<Longrightarrow>
     recursionStack s' = recursionStack s \<and> visited s \<subseteq> visited s' \<and>
     (r \<longleftrightarrow> n \<in> recursionStack s) \<and> (\<not> r \<longrightarrow> n \<in> visited s')"
proof (induction k arbitrary: n s r s')
  case 0
  then show ?case by simp
next
  case (Suc k)
  show ?case
  proof (cases "n \<in> recursionStack s \<or> n \<in> visited s")
    case True
    then show ?thesis using Suc.prems by (auto simp: detect_visit_Suc split: if_splits)
  next
    case False
    define s1 where "s1 = s\<lparr>visited := insert n (visited s), recursionStack := insert n (recursionStack s)\<rparr>"
    from Suc.prems False obtain s3 where
      loop: "for_each (detect_body k g n) (graph_get g n) s1 = Inr s3"
      and res: "r = False" "s' = s3\<lparr>recursionStack := recursionStack s3 - {n}\<rparr>"
      by (auto simp: detect_visit_Suc s1_def split: sum.splits)
    let ?I = "\<lambda>t. recursionStack t = recursionStack s1 \<and> visited s1 \<subseteq> visited t"
    have step: "\<forall>x \<in> set (graph_get g n). \<forall>t t'. ?I t \<longrightarrow> detect_body k g n x t = Inr t' \<longrightarrow> ?I t'"
      using Suc.IH by (fastforce simp: detect_body_Inr)
    have "?I s3"
      by (rule for_each_invariant_aux[where I = ?I, OF loop _ step]) simp
    then show ?thesis using res False by (auto simp: s1_def)
  qed
qed

lemma closed_rtrancl:
  assumes "(a, b) \<in> (dep_rel g)\<^sup>*" and "a \<in> B"
    and "\<forall>x \<in> B. \<forall>d \<in> set (graph_get g x). d \<in> B"
  shows "b \<in> B"
  using assms by (induction rule: rtrancl_induct) (auto simp: dep_rel_def)

lemma detect_visit_finished:
  "detect_visit k g n s = Inr (r, s') \<Longrightarrow> finished_ok g s \<Longrightarrow> finished_ok g s'"
proof (induction k arbitrary: n s r s')
  case 0
  then show ?case by simp
next
  case (Suc k)
  show ?case
  proof (cases "n \<in> recursionStack s \<or> n \<in> visited s")
    case True
    then show ?thesis using Suc.prems by (auto simp: detect_visit_Suc split: if_splits)
  next
    case False
    define s1 where "s1 = s\<lparr>visited := insert n (visited s), recursionStack := insert n (recursionStack s)\<rparr>"
    from Suc.prems(1) False obtain s3 where
      loop: "for_each (detect_body k g n) (graph_get g n) s1 = Inr s3"
      and res: "r = False" "s' = s3\<lparr>recursionStack := recursionStack s3 - {n}\<rparr>"
      by (auto simp: detect_visit_Suc s1_def split: sum.splits)
    have b1: "black s1 = black s" using False by (auto simp: black_def s1_def)
    then have f1: "finished_ok g s1" using Suc.prems(2) by (simp add: finished_ok_def)
    let ?I = "\<lambda>t. finished_ok g t \<and> recursionStack t = recursionStack s1 \<and> visited s1 \<subseteq> visited t"
    let ?Q = "\<lambda>d t. d \<in> black t"
    have step: "\<forall>x \<in> set (graph_get g n). \<forall>t t'. ?I t \<longrightarrow> detect_body k g n x t = Inr t' \<longrightarrow> ?I t' \<and> ?Q x t'"
    proof (intro ballI allI impI)
      fix x t t' assume "?I t" and b: "detect_body k g n x t = Inr t'"
      then have v: "detect_visit k g x t = Inr (False, t')" by (simp add: detect_body_Inr)
      from detect_visit_state[OF v] Suc.IH[OF v] \<open>?I t\<close>
      show "?I t' \<and> ?Q x t'" by (auto simp: black_def)
    qed
    have stable: "\<forall>y \<in> set (graph_get g n). \<forall>x t t'. ?I t \<longrightarrow> ?Q x t \<longrightarrow> detect_body k g n y t = Inr t' \<longrightarrow> ?Q x t'"
    proof (intro ballI allI impI)
      fix y x t t' assume "?I t" "?Q x t" and b: "detect_body k g n y t = Inr t'"
      then have v: "detect_visit k g y t = Inr (False, t')" by (simp add: detect_body_Inr)
      from detect_visit_state[OF v] \<open>?Q x t\<close>
      show "?Q x t'" by (auto simp: black_def)
    qed
    have post: "?I s3 \<and> (\<forall>x \<in> set (graph_get g n). ?Q x s3)"
      by (rule for_each_post_aux[where I = ?I and Q = ?Q, OF loop _ step stable]) (simp add: f1)
    have n3: "n \<in> visited s3" "n \<in> recursionStack s3" using post by (auto simp: s1_def)
    have b': "black s' = insert n (black s3)" using n3 res by (auto simp: black_def)
    have closed3: "\<forall>x \<in> black s3. \<forall>d \<in> set (graph_get g x). d \<in> black s3"
      using post by (simp add: finished_ok_def)
    have "(n, n) \<notin> (dep_rel g)\<^sup>+"
    proof
      assume "(n, n) \<in> (dep_rel g)\<^sup>+"
      then obtain d where d: "(n, d) \<in> dep_rel g" "(d, n) \<in> (dep_rel g)\<^sup>*"
        by (meson tranclD)
      then have "d \<in> black s3" using post by (simp add: dep_rel_def)
      then have "n \<in> black s3" using closed_rtrancl[OF d(2) _ closed3] by simp
      then show False using n3 by (simp add: black_def)
    qed
    then have n_ok: "(\<forall>d \<in> set (graph_get g n). d \<in> black s') \<and> (n, n) \<notin> (dep_rel g)\<^sup>+"
      using post b' by blast
    have old_ok: "(\<forall>d \<in> set (graph_get g b). d \<in> black s') \<and> (b, b) \<notin> (dep_rel g)\<^sup>+"
      if "b \<in> black s3" for b
    proof -
      have "finished_ok g s3" using post by blast
      then have "(\<forall>d \<in> set (graph_get g b). d \<in> black s3) \<and> (b, b) \<notin> (dep_rel g)\<^sup>+"
        using that unfolding finished_ok_def by blast
      then show ?thesis using b' by blast
    qed
    show ?thesis unfolding finished_ok_def
    proof
      fix b assume "b \<in> black s'"
      then have "b = n \<or> b \<in> black s3" using b' by blast
      then show "(\<forall>d \<in> set (graph_get g b). d \<in> black s') \<and> (b, b) \<notin> (dep_rel g)\<^sup>+"
        using n_ok old_ok by blast
    qed
  qed
qed

lemma detect_visit_errors:
  "detect_visit k g n s = Inl e \<Longrightarrow> e = OutOfFuel \<or> (\<exists>x. e = CircularDependency x)"
proof (induction k arbitrary: n s)
  case 0
  then show ?case by simp
next
  case (Suc k)
  from Suc.prems obtain s1 where loop: "for_each (detect_body k g n) (graph_get g n) s1 = Inl e"
    by (auto simp: detect_visit_Suc split: if_splits sum.splits)
  from for_each_error_aux[where I = "\<lambda>_. True", OF loop]
  obtain d t where "detect_body k g n d t = Inl e" by auto
  then show ?case using Suc.IH by (auto simp: detect_body_Inl)
qed

lemma detect_visit_fuel:
  "card (fst ` set g - visited s) < k \<Longrightarrow> detect_visit k g n s \<noteq> Inl OutOfFuel"
proof (induction k arbitrary: n s)
  case 0
  then show ?case by simp
next
  case (Suc k)
  show ?case
  proof
    assume out: "detect_visit (Suc k) g n s = Inl OutOfFuel"
    define s1 where "s1 = s\<lparr>visited := insert n (visited s), recursionStack := insert n (recursionStack s)\<rparr>"
    from out have nv: "n \<notin> visited s"
      and loop: "for_each (detect_body k g n) (graph_get g n) s1 = Inl OutOfFuel"
      by (auto simp: detect_visit_Suc s1_def split: if_splits sum.splits)
    let ?I = "\<lambda>t. visited s1 \<subseteq> visited t"
    have step: "\<forall>x \<in> set (graph_get g n). \<forall>t t'. ?I t \<longrightarrow> detect_body k g n x t = Inr t' \<longrightarrow> ?I t'"
      using detect_visit_state by (fastforce simp: detect_body_Inr)
    from for_each_error_aux[where I = ?I, OF loop _ step]
    obtain d t where d: "d \<in> set (graph_get g n)" and t: "?I t"
      and b: "detect_body k g n d t = Inl OutOfFuel" by auto
    from b have v: "detect_visit k g d t = Inl OutOfFuel" by (simp add: detect_body_Inl)
    have key: "n \<in> fst ` set g"
    proof (rule ccontr)
      assume "n \<notin> fst ` set g"
      then have "map_of g n = None" by (simp add: map_of_eq_None_iff)
      then show False using d by (simp add: graph_get_def)
    qed
    have "fst ` set g - visited t \<subseteq> (fst ` set g - visited s) - {n}"
      using t by (auto simp: s1_def)
    then have "card (fst ` set g - visited t) \<le> card ((fst ` set g - visited s) - {n})"
      by (intro card_mono) auto
    also have "\<dots> < card (fst ` set g - visited s)"
      using key nv by (intro card_Diff1_less) auto
    finally have "card (fst ` set g - visited t) < k" using Suc.prems by simp
    from Suc.IH[OF this] v show False by simp
  qed
qed

lemma detect_visit_acyclic:
  assumes "acyclic (dep_rel g)"
  shows "\<forall>v \<in> recursionStack s. (v, n) \<in> (dep_rel g)\<^sup>+ \<Longrightarrow>
         detect_visit k g n s = Inl e \<Longrightarrow> e = OutOfFuel"
proof (induction k arbitrary: n s)
  case 0
  then show ?case by simp
next
  case (Suc k)
  define s1 where "s1 = s\<lparr>visited := insert n (visited s), recursionStack := insert n (recursionStack s)\<rparr>"
  from Suc.prems(2) have loop: "for_each (detect_body k g n) (graph_get g n) s1 = Inl e"
    by (auto simp: detect_visit_Suc s1_def split: if_splits sum.splits)
  let ?I = "\<lambda>t. recursionStack t = recursionStack s1"
  have step: "\<forall>x \<in> set (graph_get g n). \<forall>t t'. ?I t \<longrightarrow> detect_body k g n x t = Inr t' \<longrightarrow> ?I t'"
    using detect_visit_state by (fastforce simp: detect_body_Inr)
  from for_each_error_aux[where I = ?I, OF loop _ step]
  obtain d t where d: "d \<in> set (graph_get g n)" and t: "?I t"
    and b: "detect_body k g n d t = Inl e" by auto
  have edge: "(n, d) \<in> dep_rel g" using d by (simp add: dep_rel_def)
  have pre: "\<forall>v \<in> recursionStack t. (v, d) \<in> (dep_rel g)\<^sup>+"
  proof
    fix v assume "v \<in> recursionStack t"
    then have "v = n \<or> v \<in> recursionStack s" using t by (simp add: s1_def)
    then show "(v, d) \<in> (dep_rel g)\<^sup>+"
      using edge Suc.prems(1) by (auto intro: trancl_into_trancl)
  qed
  from b consider "detect_visit k g d t = Inl e" | t' where "detect_visit k g d t = Inr (True, t')"
    by (auto simp: detect_body_Inl)
  then show ?case
  proof cases
    case 1
    then show ?thesis using Suc.IH[OF pre] by simp
  next
    case 2
    from detect_visit_state[OF 2] have "d \<in> recursionStack t" by simp
    then have "(d, d) \<in> (dep_rel g)\<^sup>+" using pre by simp
    then show ?thesis using assms by (simp add: acyclic_def)
  qed
qed

lemma detectCircularDependencies_alt:
  "detectCircularDependencies m =
     (case for_each (detect_top m) (map_keys (modules m)) \<lparr>visited = {}, recursionStack = {}\<rparr>
      of Inl e \<Rightarrow> Inl e | Inr s \<Rightarrow> Inr ())"
  by (simp add: detectCircularDependencies_def detect_top_def)

lemma detect_top_Inr:
  "detect_top m n t = Inr t' \<Longrightarrow>
     (n \<in> visited t \<and> t' = t) \<or>
     (n \<notin> visited t \<and> (\<exists>r. detect_visit (Suc (length (dependencyGraph m))) (dependencyGraph m) n t = Inr (r, t')))"
  by (auto simp: detect_top_def split: if_splits sum.splits)

lemma detect_top_Inl:
  "detect_top m n t = Inl e \<Longrightarrow>
     detect_visit (Suc (length (dependencyGraph m))) (dependencyGraph m) n t = Inl e"
  by (auto simp: detect_top_def split: if_splits sum.splits)

lemma detect_top_state:
  assumes "detect_top m n t = Inr t'"
  shows "recursionStack t' = recursionStack t \<and> visited t \<subseteq> visited t' \<and>
         (recursionStack t = {} \<longrightarrow> n \<in> visited t') \<and>
         (finished_ok (dependencyGraph m) t \<longrightarrow> finished_ok (dependencyGraph m) t')"
proof -
  from detect_top_Inr[OF assms] show ?thesis
  proof
    assume "n \<in> visited t \<and> t' = t"
    then show ?thesis by simp
  next
    assume "n \<notin> visited t \<and> (\<exists>r. detect_visit (Suc (length (dependencyGraph m))) (dependencyGraph m) n t = Inr (r, t'))"
    then obtain r where v: "detect_visit (Suc (length (dependencyGraph m))) (dependencyGraph m) n t = Inr (r, t')"
      by blast
    from detect_visit_state[OF v] detect_visit_finished[OF v] show ?thesis by auto
  qed
qed

lemma detect_complete:
  assumes ok: "detectCircularDependencies m = Inr ()"
    and keys: "fst ` set (dependencyGraph m) \<subseteq> set (map_keys (modules m))"
  shows "acyclic (dep_rel (dependencyGraph m))"
proof -
  let ?g = "dependencyGraph m"
  from ok obtain s where
    loop: "for_each (detect_top m) (map_keys (modules m)) \<lparr>visited = {}, recursionStack = {}\<rparr> = Inr s"
    by (auto simp: detectCircularDependencies_alt split: sum.splits)
  let ?I = "\<lambda>t. finished_ok ?g t \<and> recursionStack t = {}"
  let ?Q = "\<lambda>n t. n \<in> visited t"
  have step: "\<forall>x \<in> set (map_keys (modules m)). \<forall>t t'. ?I t \<longrightarrow> detect_top m x t = Inr t' \<longrightarrow> ?I t' \<and> ?Q x t'"
    using detect_top_state by fastforce
  have stable: "\<forall>y \<in> set (map_keys (modules m)). \<forall>x t t'. ?I t \<longrightarrow> ?Q x t \<longrightarrow> detect_top m y t = Inr t' \<longrightarrow> ?Q x t'"
    using detect_top_state by fastforce
  have post: "?I s \<and> (\<forall>x \<in> set (map_keys (modules m)). ?Q x s)"
    by (rule for_each_post_aux[where I = ?I and Q = ?Q, OF loop _ step stable])
       (simp add: finished_ok_def black_def)
  show ?thesis unfolding acyclic_def
  proof (intro allI notI)
    fix x assume cyc: "(x, x) \<in> (dep_rel ?g)\<^sup>+"
    then obtain d where "(x, d) \<in> dep_rel ?g" by (meson tranclD)
    then have "graph_get ?g x \<noteq> []" by (auto simp: dep_rel_def)
    then have "map_of ?g x \<noteq> None" by (auto simp: graph_get_def split: option.splits)
    then have "x \<in> fst ` set ?g" by (simp add: map_of_eq_None_iff)
    then have "x \<in> black s" using keys post by (auto simp: black_def)
    then show False using post cyc unfolding finished_ok_def by blast
  qed
qed

lemma detect_errors:
  assumes "detectCircularDependencies m = Inl e"
  shows "\<exists>x. e = CircularDependency x"
proof -
  let ?g = "dependencyGraph m"
  from assms have
    loop: "for_each (detect_top m) (map_keys (modules m)) \<lparr>visited = {}, recursionStack = {}\<rparr> = Inl e"
    by (auto simp: detectCircularDependencies_alt split: sum.splits)
  from for_each_error_aux[where I = "\<lambda>_. True", OF loop]
  obtain n t where "detect_top m n t = Inl e" by auto
  then have v: "detect_visit (Suc (length ?g)) ?g n t = Inl e" by (rule detect_top_Inl)
  have "card (fst ` set ?g - visited t) \<le> card (fst ` set ?g)"
    by (intro card_mono) auto
  also have "\<dots> \<le> length ?g" by (metis card_image_le card_length le_trans List.finite_set)
  finally have "detect_visit (Suc (length ?g)) ?g n t \<noteq> Inl OutOfFuel"
    by (intro detect_visit_fuel) simp
  then show ?thesis using detect_visit_errors[OF v] v by auto
qed

lemma detect_sound:
  assumes "acyclic (dep_rel (dependencyGraph m))"
  shows "detectCircularDependencies m = Inr ()"
proof (cases "detectCircularDependencies m")
  case (Inr u)
  then show ?thesis by simp
next
  case (Inl e)
  let ?g = "dependencyGraph m"
  from Inl have
    loop: "for_each (detect_top m) (map_keys (modules m)) \<lparr>visited = {}, recursionStack = {}\<rparr> = Inl e"
    by (auto simp: detectCircularDependencies_alt split: sum.splits)
  let ?I = "\<lambda>t. recursionStack t = {}"
  have step: "\<forall>x \<in> set (map_keys (modules m)). \<forall>t t'. ?I t \<longrightarrow> detect_top m x t = Inr t' \<longrightarrow> ?I t'"
    using detect_top_state by fastforce
  from for_each_error_aux[where I = ?I, OF loop _ step]
  obtain n t where t: "?I t" and "detect_top m n t = Inl e" by auto
  then have v: "detect_visit (Suc (length ?g)) ?g n t = Inl e" using detect_top_Inl by blast
  have "e = OutOfFuel"
    by (rule detect_visit_acyclic[OF assms _ v]) (simp add: t)
  then show ?thesis using detect_errors[OF Inl] by simp
qed

subsection \<open>The initialisation order\<close>

lemma precedes_append1: "precedes xs a b \<Longrightarrow> precedes (xs @ ys) a b"
  by (auto simp: precedes_def takeWhile_append1)

lemma precedes_snoc: "a \<in> set xs \<Longrightarrow> b \<notin> set xs \<Longrightarrow> precedes (xs @ [b]) a b"
proof -
  assume a: "a \<in> set xs" and b: "b \<notin> set xs"
  have "takeWhile (\<lambda>x. x \<noteq> b) (xs @ [b]) = xs"
    using b by (induction xs) auto
  then show ?thesis using a by (simp add: precedes_def)
qed

lemma order_visit_Suc:
  "order_visit (Suc fuel) g n s =
     (if n \<in> visiting s then Inl (CircularDependency n)
      else if n \<in> done_names s then Inr s
      else
        (case for_each (order_visit fuel g) (graph_get g n) (s\<lparr>visiting := insert n (visiting s)\<rparr>)
         of Inl e \<Rightarrow> Inl e
          | Inr s' \<Rightarrow>
              Inr (s'\<lparr>visiting := visiting s' - {n},
                      done_names := insert n (done_names s'),
                      sorted_names := sorted_names s' @ [n]\<rparr>)))"
  by simp

declare order_visit.simps(2) [simp del]

lemma order_visit_state:
  "order_visit k g n s = Inr s' \<Longrightarrow>
     n \<notin> visiting s \<and> visiting s' = visiting s \<and> done_names s \<subseteq> done_names s' \<and> n \<in> done_names s'"
proof (induction k arbitrary: n s s')
  case 0
  then show ?case by simp
next
  case (Suc k)
  show ?case
  proof (cases "n \<in> visiting s \<or> n \<in> done_names s")
    case True
    then show ?thesis using Suc.prems by (auto simp: order_visit_Suc split: if_splits)
  next
    case False
    define s1 where "s1 = s\<lparr>visiting := insert n (visiting s)\<rparr>"
    from Suc.prems False obtain s3 where
      loop: "for_each (order_visit k g) (graph_get g n) s1 = Inr s3"
      and res: "s' = s3\<lparr>visiting := visiting s3 - {n}, done_names := insert n (done_names s3),
                         sorted_names := sorted_names s3 @ [n]\<rparr>"
      by (auto simp: order_visit_Suc s1_def split: sum.splits)
    let ?I = "\<lambda>t. visiting t = visiting s1 \<and> done_names s1 \<subseteq> done_names t"
    have step: "\<forall>x \<in> set (graph_get g n). \<forall>t t'. ?I t \<longrightarrow> order_visit k g x t = Inr t' \<longrightarrow> ?I t'"
      using Suc.IH by fastforce
    have "?I s3"
      by (rule for_each_invariant_aux[where I = ?I, OF loop _ step]) simp
    then show ?thesis using res False by (auto simp: s1_def)
  qed
qed

lemma order_visit_topo:
  "order_visit k g n s = Inr s' \<Longrightarrow> topo_ok g s \<Longrightarrow> topo_ok g s'"
proof (induction k arbitrary: n s s')
  case 0
  then show ?case by simp
next
  case (Suc k)
  show ?case
  proof (cases "n \<in> visiting s \<or> n \<in> done_names s")
    case True
    then show ?thesis using Suc.prems by (auto simp: order_visit_Suc split: if_splits)
  next
    case False
    define s1 where "s1 = s\<lparr>visiting := insert n (visiting s)\<rparr>"
    from Suc.prems(1) False obtain s3 where
      loop: "for_each (order_visit k g) (graph_get g n) s1 = Inr s3"
      and res: "s' = s3\<lparr>visiting := visiting s3 - {n}, done_names := insert n (done_names s3),
                         sorted_names := sorted_names s3 @ [n]\<rparr>"
      by (auto simp: order_visit_Suc s1_def split: sum.splits)
    have t1: "topo_ok g s1" using Suc.prems(2) False by (auto simp: topo_ok_def s1_def)
    let ?I = "\<lambda>t. topo_ok g t \<and> visiting t = visiting s1"
    let ?Q = "\<lambda>d t. d \<in> done_names t"
    have step: "\<forall>x \<in> set (graph_get g n). \<forall>t t'. ?I t \<longrightarrow> order_visit k g x t = Inr t' \<longrightarrow> ?I t' \<and> ?Q x t'"
    proof (intro ballI allI impI)
      fix x t t' assume "?I t" and v: "order_visit k g x t = Inr t'"
      with order_visit_state[OF v] Suc.IH[OF v] show "?I t' \<and> ?Q x t'" by auto
    qed
    have stable: "\<forall>y \<in> set (graph_get g n). \<forall>x t t'. ?I t \<longrightarrow> ?Q x t \<longrightarrow> order_visit k g y t = Inr t' \<longrightarrow> ?Q x t'"
    proof (intro ballI allI impI)
      fix y x t t' assume "?Q x t" and v: "order_visit k g y t = Inr t'"
      with order_visit_state[OF v] show "?Q x t'" by auto
    qed
    have post: "?I s3 \<and> (\<forall>x \<in> set (graph_get g n). ?Q x s3)"
      by (rule for_each_post_aux[where I = ?I and Q = ?Q, OF loop _ step stable]) (simp add: t1)
    then have t3: "topo_ok g s3" and v3: "n \<in> visiting s3"
      and deps: "\<forall>d \<in> set (graph_get g n). d \<in> done_names s3"
      by (auto simp: s1_def)
    from t3 v3 have fresh: "n \<notin> set (sorted_names s3)" and d3: "done_names s3 = set (sorted_names s3)"
      by (auto simp: topo_ok_def)
    have prec: "precedes (sorted_names s3 @ [n]) d x"
      if "x \<in> set (sorted_names s3 @ [n])" "d \<in> set (graph_get g x)" for x d
    proof (cases "x = n")
      case True
      then show ?thesis using that deps d3 fresh by (simp add: precedes_snoc)
    next
      case False
      then have "precedes (sorted_names s3) d x" using that t3 by (simp add: topo_ok_def)
      then show ?thesis by (rule precedes_append1)
    qed
    show ?thesis unfolding topo_ok_def
    proof (intro conjI ballI)
      show "done_names s' = set (sorted_names s')" using res d3 by simp
      show "distinct (sorted_names s')" using res t3 fresh by (simp add: topo_ok_def)
      show "done_names s' \<inter> visiting s' = {}" using res t3 by (auto simp: topo_ok_def)
    next
      fix x d assume "x \<in> set (sorted_names s')" "d \<in> set (graph_get g x)"
      then show "precedes (sorted_names s') d x" using prec res by simp
    qed
  qed
qed

lemma order_visit_errors:
  "order_visit k g n s = Inl e \<Longrightarrow> e = OutOfFuel \<or> (\<exists>x. e = CircularDependency x)"
proof (induction k arbitrary: n s)
  case 0
  then show ?case by simp
next
  case (Suc k)
  show ?case
  proof (cases "n \<in> visiting s")
    case True
    then show ?thesis using Suc.prems by (auto simp: order_visit_Suc)
  next
    case False
    with Suc.prems obtain s1 where loop: "for_each (order_visit k g) (graph_get g n) s1 = Inl e"
      by (auto simp: order_visit_Suc split: if_splits sum.splits)
    from for_each_error_aux[where I = "\<lambda>_. True", OF loop]
    obtain d t where "order_visit k g d t = Inl e" by auto
    then show ?thesis using Suc.IH by blast
  qed
qed

lemma order_visit_fuel:
  "card (fst ` set g - visiting s) < k \<Longrightarrow> order_visit k g n s \<noteq> Inl OutOfFuel"
proof (induction k arbitrary: n s)
  case 0
  then show ?case by simp
next
  case (Suc k)
  show ?case
  proof
    assume out: "order_visit (Suc k) g n s = Inl OutOfFuel"
    define s1 where "s1 = s\<lparr>visiting := insert n (visiting s)\<rparr>"
    from out have nv: "n \<notin> visiting s"
      and loop: "for_each (order_visit k g) (graph_get g n) s1 = Inl OutOfFuel"
      by (auto simp: order_visit_Suc s1_def split: if_splits sum.splits)
    let ?I = "\<lambda>t. visiting t = visiting s1"
    have step: "\<forall>x \<in> set (graph_get g n). \<forall>t t'. ?I t \<longrightarrow> order_visit k g x t = Inr t' \<longrightarrow> ?I t'"
      using order_visit_state by fastforce
    from for_each_error_aux[where I = ?I, OF loop _ step]
    obtain d t where d: "d \<in> set (graph_get g n)" and t: "?I t"
      and v: "order_visit k g d t = Inl OutOfFuel" by auto
    have key: "n \<in> fst ` set g"
    proof (rule ccontr)
      assume "n \<notin> fst ` set g"
      then have "map_of g n = None" by (simp add: map_of_eq_None_iff)
      then show False using d by (simp add: graph_get_def)
    qed
    have "fst ` set g - visiting t = (fst ` set g - visiting s) - {n}"
      using t by (auto simp: s1_def)
    then have "card (fst ` set g - visiting t) = card ((fst ` set g - visiting s) - {n})"
      by simp
    also have "\<dots> < card (fst ` set g - visiting s)"
      using key nv by (intro card_Diff1_less) auto
    finally have "card (fst ` set g - visiting t) < k" using Suc.prems by simp
    from Suc.IH[OF this] v show False by simp
  qed
qed

lemma order_visit_acyclic:
  assumes "acyclic (dep_rel g)"
  shows "\<forall>v \<in> visiting s. (v, n) \<in> (dep_rel g)\<^sup>+ \<Longrightarrow>
         order_visit k g n s = Inl e \<Longrightarrow> e = OutOfFuel"
proof (induction k arbitrary: n s)
  case 0
  then show ?case by simp
next
  case (Suc k)
  have nv: "n \<notin> visiting s"
  proof
    assume "n \<in> visiting s"
    then have "(n, n) \<in> (dep_rel g)\<^sup>+" using Suc.prems(1) by simp
    then show False using assms by (simp add: acyclic_def)
  qed
  define s1 where "s1 = s\<lparr>visiting := insert n (visiting s)\<rparr>"
  from Suc.prems(2) nv have loop: "for_each (order_visit k g) (graph_get g n) s1 = Inl e"
    by (auto simp: order_visit_Suc s1_def split: if_splits sum.splits)
  let ?I = "\<lambda>t. visiting t = visiting s1"
  have step: "\<forall>x \<in> set (graph_get g n). \<forall>t t'. ?I t \<longrightarrow> order_visit k g x t = Inr t' \<longrightarrow> ?I t'"
    using order_visit_state by fastforce
  from for_each_error_aux[where I = ?I, OF loop _ step]
  obtain d t where d: "d \<in> set (graph_get g n)" and t: "?I t"
    and v: "order_visit k g d t = Inl e" by auto
  have edge: "(n, d) \<in> dep_rel g" using d by (simp add: dep_rel_def)
  have pre: "\<forall>v \<in> visiting t. (v, d) \<in> (dep_rel g)\<^sup>+"
  proof
    fix v assume "v \<in> visiting t"
    then have "v = n \<or> v \<in> visiting s" using t by (simp add: s1_def)
    then show "(v, d) \<in> (dep_rel g)\<^sup>+"
      using edge Suc.prems(1) by (auto intro: trancl_into_trancl)
  qed
  show ?case using Suc.IH[OF pre v] .
qed

lemma order_visit_closed:
  assumes closed: "\<forall>x \<in> K. set (graph_get g x) \<subseteq> K"
  shows "order_visit k g n s = Inr s' \<Longrightarrow> n \<in> K \<Longrightarrow> done_names s \<subseteq> K \<Longrightarrow> done_names s' \<subseteq> K"
proof (induction k arbitrary: n s s')
  case 0
  then show ?case by simp
next
  case (Suc k)
  show ?case
  proof (cases "n \<in> visiting s \<or> n \<in> done_names s")
    case True
    then show ?thesis using Suc.prems by (auto simp: order_visit_Suc split: if_splits)
  next
    case False
    define s1 where "s1 = s\<lparr>visiting := insert n (visiting s)\<rparr>"
    from Suc.prems(1) False obtain s3 where
      loop: "for_each (order_visit k g) (graph_get g n) s1 = Inr s3"
      and res: "s' = s3\<lparr>visiting := visiting s3 - {n}, done_names := insert n (done_names s3),
                         sorted_names := sorted_names s3 @ [n]\<rparr>"
      by (auto simp: order_visit_Suc s1_def split: sum.splits)
    let ?I = "\<lambda>t. done_names t \<subseteq> K"
    have step: "\<forall>x \<in> set (graph_get g n). \<forall>t t'. ?I t \<longrightarrow> order_visit k g x t = Inr t' \<longrightarrow> ?I t'"
    proof (intro ballI allI impI)
      fix x t t' assume x: "x \<in> set (graph_get g n)" and "?I t" and v: "order_visit k g x t = Inr t'"
      moreover have "x \<in> K" using closed Suc.prems(2) x by blast
      ultimately show "?I t'" using Suc.IH[OF v] by simp
    qed
    have "?I s3"
      by (rule for_each_invariant_aux[where I = ?I, OF loop _ step]) (use Suc.prems(3) in \<open>simp add: s1_def\<close>)
    then show ?thesis using res Suc.prems(2) by simp
  qed
qed

lemma getInitialisationOrder_alt:
  "getInitialisationOrder m =
     (case for_each (order_top m) (map_keys (modules m))
             \<lparr>sorted_names = [], done_names = {}, visiting = {}\<rparr>
      of Inl e \<Rightarrow> Inl e | Inr s \<Rightarrow> Inr (sorted_names s))"
  by (simp add: getInitialisationOrder_def order_top_def)

lemma order_top_state:
  assumes "order_top m n t = Inr t'"
  shows "visiting t' = visiting t \<and> done_names t \<subseteq> done_names t' \<and> n \<in> done_names t' \<and>
         (topo_ok (dependencyGraph m) t \<longrightarrow> topo_ok (dependencyGraph m) t')"
proof (cases "n \<in> done_names t")
  case True
  then show ?thesis using assms by (simp add: order_top_def)
next
  case False
  then have v: "order_visit (Suc (length (dependencyGraph m))) (dependencyGraph m) n t = Inr t'"
    using assms by (simp add: order_top_def)
  from order_visit_state[OF v] order_visit_topo[OF v] show ?thesis by simp
qed

lemma order_top_closed:
  assumes "order_top m n t = Inr t'" and "\<forall>x \<in> K. set (graph_get (dependencyGraph m) x) \<subseteq> K"
    and "n \<in> K" and "done_names t \<subseteq> K"
  shows "done_names t' \<subseteq> K"
proof (cases "n \<in> done_names t")
  case True
  then show ?thesis using assms by (simp add: order_top_def)
next
  case False
  then have v: "order_visit (Suc (length (dependencyGraph m))) (dependencyGraph m) n t = Inr t'"
    using assms(1) by (simp add: order_top_def)
  from order_visit_closed[OF assms(2) v assms(3,4)] show ?thesis .
qed

lemma order_top_Inl:
  "order_top m n t = Inl e \<Longrightarrow>
     order_visit (Suc (length (dependencyGraph m))) (dependencyGraph m) n t = Inl e"
  by (auto simp: order_top_def split: if_splits)

lemma order_result:
  assumes "getInitialisationOrder m = Inr order"
  shows "distinct order \<and> set (map_keys (modules m)) \<subseteq> set order \<and>
         (\<forall>n \<in> set order. \<forall>d \<in> set (graph_get (dependencyGraph m) n). precedes order d n)"
proof -
  let ?g = "dependencyGraph m"
  from assms obtain s where
    loop: "for_each (order_top m) (map_keys (modules m)) \<lparr>sorted_names = [], done_names = {}, visiting = {}\<rparr> = Inr s"
    and order: "order = sorted_names s"
    by (auto simp: getInitialisationOrder_alt split: sum.splits)
  let ?I = "\<lambda>t. topo_ok ?g t"
  let ?Q = "\<lambda>n t. n \<in> done_names t"
  have step: "\<forall>x \<in> set (map_keys (modules m)). \<forall>t t'. ?I t \<longrightarrow> order_top m x t = Inr t' \<longrightarrow> ?I t' \<and> ?Q x t'"
    using order_top_state by blast
  have stable: "\<forall>y \<in> set (map_keys (modules m)). \<forall>x t t'. ?I t \<longrightarrow> ?Q x t \<longrightarrow> order_top m y t = Inr t' \<longrightarrow> ?Q x t'"
    using order_top_state by blast
  have post: "?I s \<and> (\<forall>x \<in> set (map_keys (modules m)). ?Q x s)"
    by (rule for_each_post_aux[where I = ?I and Q = ?Q, OF loop _ step stable])
       (simp add: topo_ok_def)
  then show ?thesis unfolding order by (auto simp: topo_ok_def)
qed

lemma order_within_keys:
  assumes "getInitialisationOrder m = Inr order"
    and closed: "\<forall>x \<in> set (map_keys (modules m)). set (graph_get (dependencyGraph m) x) \<subseteq> set (map_keys (modules m))"
  shows "set order = set (map_keys (modules m))"
proof -
  let ?g = "dependencyGraph m" and ?K = "set (map_keys (modules m))"
  from assms obtain s where
    loop: "for_each (order_top m) (map_keys (modules m)) \<lparr>sorted_names = [], done_names = {}, visiting = {}\<rparr> = Inr s"
    and order: "order = sorted_names s"
    by (auto simp: getInitialisationOrder_alt split: sum.splits)
  let ?I = "\<lambda>t. topo_ok ?g t \<and> done_names t \<subseteq> ?K"
  have step: "\<forall>x \<in> ?K. \<forall>t t'. ?I t \<longrightarrow> order_top m x t = Inr t' \<longrightarrow> ?I t'"
    using order_top_state order_top_closed[OF _ closed] by blast
  have "?I s"
    by (rule for_each_invariant_aux[where I = ?I, OF loop _ step]) (simp add: topo_ok_def)
  then have "set order \<subseteq> ?K" unfolding order by (auto simp: topo_ok_def)
  then show ?thesis using order_result[OF assms(1)] by blast
qed

lemma order_errors:
  assumes "getInitialisationOrder m = Inl e"
  shows "\<exists>x. e = CircularDependency x"
proof -
  let ?g = "dependencyGraph m"
  from assms have
    loop: "for_each (order_top m) (map_keys (modules m)) \<lparr>sorted_names = [], done_names = {}, visiting = {}\<rparr> = Inl e"
    by (auto simp: getInitialisationOrder_alt split: sum.splits)
  let ?I = "\<lambda>t. visiting t = {}"
  have step: "\<forall>x \<in> set (map_keys (modules m)). \<forall>t t'. ?I t \<longrightarrow> order_top m x t = Inr t' \<longrightarrow> ?I t'"
    using order_top_state by fastforce
  from for_each_error_aux[where I = ?I, OF loop _ step]
  obtain n t where t: "?I t" and "order_top m n t = Inl e" by auto
  then have v: "order_visit (Suc (length ?g)) ?g n t = Inl e" using order_top_Inl by blast
  have "card (fst ` set ?g - visiting t) \<le> card (fst ` set ?g)"
    by (intro card_mono) auto
  also have "\<dots> \<le> length ?g" by (metis card_image_le card_length le_trans List.finite_set)
  finally have "order_visit (Suc (length ?g)) ?g n t \<noteq> Inl OutOfFuel"
    by (intro order_visit_fuel) simp
  then show ?thesis using order_visit_errors[OF v] v by auto
qed

lemma order_acyclic:
  assumes "acyclic (dep_rel (dependencyGraph m))"
  shows "\<exists>order. getInitialisationOrder m = Inr order"
proof (cases "getInitialisationOrder m")
  case (Inr order)
  then show ?thesis by simp
next
  case (Inl e)
  let ?g = "dependencyGraph m"
  from Inl have
    loop: "for_each (order_top m) (map_keys (modules m)) \<lparr>sorted_names = [], done_names = {}, visiting = {}\<rparr> = Inl e"
    by (auto simp: getInitialisationOrder_alt split: sum.splits)
  let ?I = "\<lambda>t. visiting t = {}"
  have step: "\<forall>x \<in> set (map_keys (modules m)). \<forall>t t'. ?I t \<longrightarrow> order_top m x t = Inr t' \<longrightarrow> ?I t'"
    using order_top_state by fastforce
  from for_each_error_aux[where I = ?I, OF loop _ step]
  obtain n t where t: "?I t" and "order_top m n t = Inl e" by auto
  then have v: "order_visit (Suc (length ?g)) ?g n t = Inl e" using order_top_Inl by blast
  have "e = OutOfFuel"
    by (rule order_visit_acyclic[OF assms _ v]) (simp add: t)
  then show ?thesis using order_errors[OF Inl] by simp
qed



subsection \<open>Consistent managers\<close>

lemma set_new_Set: "set (new_Set xs) = set xs"
  by (induction xs) auto

lemma map_of_graph:
  "map_of (map (\<lambda>(n, md). (n, f md)) mods) k = map_option f (map_of mods k)"
  by (induction mods) auto

lemma consistent_graph_get:
  assumes "consistent m"
  shows "set (graph_get (dependencyGraph m) n) =
           (case map_of (modules m) n of Some md \<Rightarrow> set (dependencies md) | None \<Rightarrow> {})"
  using assms by (auto simp: consistent_def graph_get_def map_of_graph set_new_Set split: option.splits)

lemma consistent_keys:
  assumes "consistent m"
  shows "map_keys (dependencyGraph m) = map_keys (modules m)"
  using assms by (auto simp: consistent_def map_keys_def split_def comp_def)

lemma declared_edges_iff:
  "(n, d) \<in> set (declared_edges m) \<longleftrightarrow> (\<exists>md. (n, md) \<in> set (modules m) \<and> d \<in> set (dependencies md))"
  by (auto simp: declared_edges_def)

lemma consistent_dep_rel:
  assumes "consistent m"
  shows "dep_rel (dependencyGraph m) = set (declared_edges m)"
proof -
  have d: "distinct (map fst (modules m))" using assms by (simp add: consistent_def map_keys_def)
  have "(n, x) \<in> dep_rel (dependencyGraph m) \<longleftrightarrow> (n, x) \<in> set (declared_edges m)" for n x
  proof (cases "map_of (modules m) n")
    case None
    then have "\<And>md. (n, md) \<notin> set (modules m)"
      by (metis map_of_eq_Some_iff[OF d] option.distinct(1))
    then show ?thesis using None
      by (simp add: dep_rel_def consistent_graph_get[OF assms] declared_edges_iff)
  next
    case (Some md)
    then have "\<And>md'. (n, md') \<in> set (modules m) \<longleftrightarrow> md' = md"
      by (metis map_of_eq_Some_iff[OF d] option.inject)
    then show ?thesis using Some
      by (simp add: dep_rel_def consistent_graph_get[OF assms] declared_edges_iff)
  qed
  then show ?thesis by auto
qed

lemma validate_loop_ok:
  assumes "\<forall>(n, deps) \<in> set g. \<forall>d \<in> set deps. map_has mods d"
  shows "for_each
           (\<lambda>(moduleName, deps) u.
              for_each
                (\<lambda>dependency u.
                   if \<not> map_has mods dependency
                   then Inl (DependencyNotRegistered moduleName dependency)
                   else Inr u)
                deps u)
           g () = Inr ()"
  using assms
proof (induction g)
  case Nil
  then show ?case by simp
next
  case (Cons a g)
  obtain n deps where a: "a = (n, deps)" by (cases a)
  have inner: "for_each
                (\<lambda>dependency u.
                   if \<not> map_has mods dependency
                   then Inl (DependencyNotRegistered n dependency)
                   else Inr u)
                deps () = Inr ()" if "\<forall>d \<in> set deps. map_has mods d" for deps
    using that by (induction deps) auto
  show ?case using Cons a inner[of deps] by auto
qed

lemma validate_loop_errors:
  "for_each
           (\<lambda>(moduleName, deps) u.
              for_each
                (\<lambda>dependency u.
                   if \<not> map_has mods dependency
                   then Inl (DependencyNotRegistered moduleName dependency)
                   else Inr u)
                deps u)
           g u = Inl e \<Longrightarrow> \<exists>n d. e = DependencyNotRegistered n d"
proof (induction g arbitrary: u)
  case Nil
  then show ?case by simp
next
  case (Cons a g)
  obtain n deps where a: "a = (n, deps)" by (cases a)
  have inner: "for_each
                (\<lambda>dependency u.
                   if \<not> map_has mods dependency
                   then Inl (DependencyNotRegistered n dependency)
                   else Inr u)
                deps u = Inl e \<Longrightarrow> \<exists>n d. e = DependencyNotRegistered n d" for deps u
    by (induction deps arbitrary: u) (auto split: if_splits)
  show ?case using Cons a inner[of deps u] by (auto split: sum.splits)
qed

lemma consistent_registered:
  assumes "consistent m" and "dependencies_registered m"
  shows "\<forall>(n, deps) \<in> set (dependencyGraph m). \<forall>d \<in> set deps. map_has (modules m) d"
proof -
  have "map_has (modules m) d"
    if "(n, md) \<in> set (modules m)" "d \<in> set (dependencies md)" for n md d
  proof -
    have "(n, d) \<in> set (declared_edges m)" using that by (auto simp: declared_edges_iff)
    then show ?thesis using assms(2) by (auto simp: dependencies_registered_def list_all_iff)
  qed
  then show ?thesis using assms(1) by (auto simp: consistent_def set_new_Set)
qed

lemma validate_ok:
  assumes "consistent m" and "dependencies_registered m"
  shows "validateDependencies m = detectCircularDependencies m"
  using validate_loop_ok[OF consistent_registered[OF assms]]
  by (simp add: validateDependencies_def)

lemma validate_errors:
  "validateDependencies m = Inl e \<Longrightarrow>
     (\<exists>n d. e = DependencyNotRegistered n d) \<or> (\<exists>x. e = CircularDependency x)"
  using validate_loop_errors detect_errors
  by (fastforce simp: validateDependencies_def split: sum.splits)

lemma validate_inner_missing:
  "\<exists>d \<in> set deps. \<not> map_has mods d \<Longrightarrow>
     \<exists>d. for_each
            (\<lambda>dependency u.
               if \<not> map_has mods dependency
               then Inl (DependencyNotRegistered n dependency)
               else Inr u)
            deps (u::unit) = Inl (DependencyNotRegistered n d) \<and> d \<in> set deps \<and> \<not> map_has mods d"
  by (induction deps) auto

lemma validate_inner_cases:
  "for_each
     (\<lambda>dependency u.
        if \<not> map_has mods dependency
        then Inl (DependencyNotRegistered n dependency)
        else Inr u)
     deps (u::unit) = Inr () \<or>
   (\<exists>d. for_each
            (\<lambda>dependency u.
               if \<not> map_has mods dependency
               then Inl (DependencyNotRegistered n dependency)
               else Inr u)
            deps u = Inl (DependencyNotRegistered n d) \<and> d \<in> set deps \<and> \<not> map_has mods d)"
  by (induction deps) auto

lemma validate_loop_missing:
  assumes "\<exists>(n, deps) \<in> set g. \<exists>d \<in> set deps. \<not> map_has mods d"
  shows "\<exists>n deps d.
           for_each
             (\<lambda>(moduleName, deps) u.
                for_each
                  (\<lambda>dependency u.
                     if \<not> map_has mods dependency
                     then Inl (DependencyNotRegistered moduleName dependency)
                     else Inr u)
                  deps u)
             g () = Inl (DependencyNotRegistered n d) \<and>
           (n, deps) \<in> set g \<and> d \<in> set deps \<and> \<not> map_has mods d"
  using assms
proof (induction g)
  case Nil
  then show ?case by simp
next
  case (Cons a g)
  obtain n deps where a: "a = (n, deps)" by (cases a)
  from validate_inner_cases[of mods n deps "()"] show ?case
  proof
    assume ok: "for_each
     (\<lambda>dependency u.
        if \<not> map_has mods dependency
        then Inl (DependencyNotRegistered n dependency)
        else Inr u)
     deps () = Inr ()"
    have "\<forall>d \<in> set deps. map_has mods d"
    proof (rule ccontr)
      assume "\<not> (\<forall>d \<in> set deps. map_has mods d)"
      then have "\<exists>d \<in> set deps. \<not> map_has mods d" by blast
      from validate_inner_missing[OF this, of n "()"] ok show False by simp
    qed
    with Cons.prems a have "\<exists>(n, deps) \<in> set g. \<exists>d \<in> set deps. \<not> map_has mods d" by auto
    from Cons.IH[OF this] ok a show ?thesis by auto
  next
    assume "\<exists>d. for_each
            (\<lambda>dependency u.
               if \<not> map_has mods dependency
               then Inl (DependencyNotRegistered n dependency)
               else Inr u)
            deps () = Inl (DependencyNotRegistered n d) \<and> d \<in> set deps \<and> \<not> map_has mods d"
    then show ?thesis using a by auto
  qed
qed

lemma validate_missing:
  assumes c: "consistent m" and r: "\<not> dependencies_registered m"
  shows "\<exists>n d. validateDependencies m = Inl (DependencyNotRegistered n d) \<and>
           (n, d) \<in> set (declared_edges m) \<and> \<not> map_has (modules m) d"
proof -
  from r obtain n d where e: "(n, d) \<in> set (declared_edges m)" and nd: "\<not> map_has (modules m) d"
    by (auto simp: dependencies_registered_def list_all_iff)
  then obtain md where md: "(n, md) \<in> set (modules m)" "d \<in> set (dependencies md)"
    by (auto simp: declared_edges_iff)
  have "(n, new_Set (dependencies md)) \<in> set (dependencyGraph m)"
    using c md(1) by (force simp: consistent_def)
  then have "\<exists>(n, deps) \<in> set (dependencyGraph m). \<exists>d \<in> set deps. \<not> map_has (modules m) d"
    using md(2) nd by (intro bexI[of _ "(n, new_Set (dependencies md))"]) (auto simp: set_new_Set)
  from validate_loop_missing[OF this] obtain n' deps' d' where
    l: "for_each
             (\<lambda>(moduleName, deps) u.
                for_each
                  (\<lambda>dependency u.
                     if \<not> map_has (modules m) dependency
                     then Inl (DependencyNotRegistered moduleName dependency)
                     else Inr u)
                  deps u)
             (dependencyGraph m) () = Inl (DependencyNotRegistered n' d')"
    and g: "(n', deps') \<in> set (dependencyGraph m)" "d' \<in> set deps'" "\<not> map_has (modules m) d'"
    by blast
  from g(1) c obtain md' where "(n', md') \<in> set (modules m)" "deps' = new_Set (dependencies md')"
    by (auto simp: consistent_def)
  then have "(n', d') \<in> set (declared_edges m)"
    using g(2) by (auto simp: declared_edges_iff set_new_Set)
  then show ?thesis using l g(3) by (auto simp: validateDependencies_def)
qed

subsection \<open>The initialisation loop\<close>

lemma precedes_Cons:
  "precedes (y # xs) a b \<longleftrightarrow> y \<noteq> b \<and> ((a = y \<and> b \<in> set xs) \<or> precedes xs a b)"
  by (auto simp: precedes_def)

lemma precedes_Nil [simp]: "\<not> precedes [] a b"
  by (simp add: precedes_def)

lemma precedes_in_set: "precedes xs a b \<Longrightarrow> a \<in> set xs \<and> b \<in> set xs"
  by (auto simp: precedes_def dest: set_takeWhileD)

lemma initialise_loop_Cons:
  "initialise_loop (modules m) (x # rest) =
     (if module_enabled m x then
        (if initialise_throws (the (map_of (modules m) x))
         then ([InitThrew x], Some (InitialiserFailed x))
         else (InitCompleted x # fst (initialise_loop (modules m) rest),
               snd (initialise_loop (modules m) rest)))
      else initialise_loop (modules m) rest)"
  by (auto simp: module_enabled_def split: option.splits prod.splits)

lemma initialise_loop_invoked:
  "initialise_loop (modules m) order = (evs, r) \<Longrightarrow> initialiser_invoked evs n \<Longrightarrow>
     n \<in> set order \<and> module_enabled m n"
proof (induction order arbitrary: evs r)
  case Nil
  then show ?case by (simp add: initialiser_invoked_def)
next
  case (Cons x rest)
  obtain evs' r' where rest: "initialise_loop (modules m) rest = (evs', r')"
    by (cases "initialise_loop (modules m) rest")
  from Cons.prems rest Cons.IH[OF rest] show ?case
    by (auto simp: initialise_loop_Cons initialiser_invoked_def simp del: initialise_loop.simps
             split: if_splits)
qed

lemma initialise_loop_order:
  "initialise_loop (modules m) order = (evs, r) \<Longrightarrow> distinct order \<Longrightarrow>
     initialiser_invoked evs n \<Longrightarrow> precedes order d n \<Longrightarrow> module_enabled m d \<Longrightarrow>
     completed_before evs d n"
proof (induction order arbitrary: evs r)
  case Nil
  then show ?case by simp
next
  case (Cons x rest)
  obtain evs' r' where rest: "initialise_loop (modules m) rest = (evs', r')"
    by (cases "initialise_loop (modules m) rest")
  from Cons.prems(4) have xn: "x \<noteq> n" and dn: "(d = x \<and> n \<in> set rest) \<or> precedes rest d n"
    by (auto simp: precedes_Cons)
  have n_rest: "n \<in> set rest" using dn precedes_in_set[of rest d n] by auto
  from Cons.prems(2) have dist: "distinct rest" and x_rest: "x \<notin> set rest" by auto
  show ?case
  proof (cases "module_enabled m x")
    case False
    then have loop: "initialise_loop (modules m) rest = (evs, r)"
      using Cons.prems(1) by (simp add: initialise_loop_Cons del: initialise_loop.simps)
    from False Cons.prems(5) dn have "precedes rest d n" by auto
    from Cons.IH[OF loop dist Cons.prems(3) this Cons.prems(5)] show ?thesis .
  next
    case True
    show ?thesis
    proof (cases "initialise_throws (the (map_of (modules m) x))")
      case True
      with \<open>module_enabled m x\<close> Cons.prems(1) have "evs = [InitThrew x]"
        by (simp add: initialise_loop_Cons del: initialise_loop.simps)
      then show ?thesis using Cons.prems(3) xn by (simp add: initialiser_invoked_def)
    next
      case False
      with \<open>module_enabled m x\<close> Cons.prems(1) rest have evs: "evs = InitCompleted x # evs'"
        by (simp add: initialise_loop_Cons del: initialise_loop.simps)
      from Cons.prems(3) xn have inv': "initialiser_invoked evs' n"
        by (auto simp: evs initialiser_invoked_def)
      from dn show ?thesis
      proof
        assume "d = x \<and> n \<in> set rest"
        then show ?thesis using inv' xn
          by (auto simp: completed_before_def evs precedes_Cons initialiser_invoked_def)
      next
        assume "precedes rest d n"
        from Cons.IH[OF rest dist inv' this Cons.prems(5)]
        show ?thesis using xn by (auto simp: completed_before_def evs precedes_Cons)
      qed
    qed
  qed
qed

lemma initialise_loop_complete:
  "initialise_loop (modules m) order = (evs, None) \<Longrightarrow> n \<in> set order \<Longrightarrow> module_enabled m n \<Longrightarrow>
     InitCompleted n \<in> set evs"
proof (induction order arbitrary: evs)
  case Nil
  then show ?case by simp
next
  case (Cons x rest)
  obtain evs' r' where rest: "initialise_loop (modules m) rest = (evs', r')"
    by (cases "initialise_loop (modules m) rest")
  from Cons.prems rest Cons.IH[of evs'] show ?case
    by (auto simp: initialise_loop_Cons simp del: initialise_loop.simps split: if_splits)
qed

lemma initialise_loop_failure:
  "initialise_loop mods order = (evs, Some e) \<Longrightarrow>
     \<exists>n. e = InitialiserFailed n \<and> InitThrew n \<in> set evs"
proof (induction order arbitrary: evs)
  case Nil
  then show ?case by simp
next
  case (Cons x rest)
  obtain evs' r' where rest: "initialise_loop mods rest = (evs', r')"
    by (cases "initialise_loop mods rest")
  from Cons.prems rest Cons.IH[of evs'] show ?case
    by (auto split: option.splits if_splits)
qed

subsection \<open>Registration order\<close>

lemma for_each_unchanged:
  "\<forall>x \<in> set xs. f x s = Inr s \<Longrightarrow> for_each f xs s = Inr s"
  by (induction xs) auto

lemma order_top_registered_before:
  assumes g: "dependencyGraph m \<noteq> []"
    and deps: "set (graph_get (dependencyGraph m) n) \<subseteq> set ps" and fresh: "n \<notin> set ps"
  shows "order_top m n \<lparr>sorted_names = ps, done_names = set ps, visiting = {}\<rparr> =
           Inr \<lparr>sorted_names = ps @ [n], done_names = set (ps @ [n]), visiting = {}\<rparr>"
proof -
  let ?g = "dependencyGraph m"
  let ?s1 = "\<lparr>sorted_names = ps, done_names = set ps, visiting = {n}\<rparr>"
  obtain k where k: "length ?g = Suc k" using g by (cases ?g) auto
  have "\<forall>d \<in> set (graph_get ?g n). order_visit (length ?g) ?g d ?s1 = Inr ?s1"
    using deps fresh by (auto simp: k order_visit_Suc)
  then have "for_each (order_visit (length ?g) ?g) (graph_get ?g n) ?s1 = Inr ?s1"
    by (rule for_each_unchanged)
  then show ?thesis using fresh by (simp add: order_top_def order_visit_Suc)
qed

lemma order_keeps_registration_order_aux:
  assumes g: "dependencyGraph m \<noteq> [] \<or> rest = []"
  shows "distinct (ps @ rest) \<Longrightarrow>
     \<forall>n \<in> set rest. \<forall>d \<in> set (graph_get (dependencyGraph m) n). precedes (ps @ rest) d n \<Longrightarrow>
     for_each (order_top m) rest \<lparr>sorted_names = ps, done_names = set ps, visiting = {}\<rparr> =
       Inr \<lparr>sorted_names = ps @ rest, done_names = set (ps @ rest), visiting = {}\<rparr>"
  using g
proof (induction rest arbitrary: ps)
  case Nil
  then show ?case by simp
next
  case (Cons n rest)
  have fresh: "n \<notin> set ps" using Cons.prems(1) by auto
  have tw: "takeWhile (\<lambda>x. x \<noteq> n) (ps @ n # rest) = ps"
    using fresh by (induction ps) auto
  have deps: "set (graph_get (dependencyGraph m) n) \<subseteq> set ps"
    using Cons.prems(2) tw by (auto simp: precedes_def)
  have g: "dependencyGraph m \<noteq> []" using Cons.prems(3) by simp
  have step: "order_top m n \<lparr>sorted_names = ps, done_names = set ps, visiting = {}\<rparr> =
           Inr \<lparr>sorted_names = ps @ [n], done_names = set (ps @ [n]), visiting = {}\<rparr>"
    by (rule order_top_registered_before[OF g deps fresh])
  have "for_each (order_top m) rest \<lparr>sorted_names = ps @ [n], done_names = set (ps @ [n]), visiting = {}\<rparr> =
       Inr \<lparr>sorted_names = (ps @ [n]) @ rest, done_names = set ((ps @ [n]) @ rest), visiting = {}\<rparr>"
    by (rule Cons.IH) (use Cons.prems g in auto)
  then show ?case using step by simp
qed

lemma order_keeps_registration_order:
  assumes "consistent m"
    and "\<forall>(n, d) \<in> set (declared_edges m). precedes (map_keys (modules m)) d n"
  shows "getInitialisationOrder m = Inr (map_keys (modules m))"
proof -
  let ?ks = "map_keys (modules m)"
  have d: "distinct ([] @ ?ks)" using assms(1) by (simp add: consistent_def)
  have g: "dependencyGraph m \<noteq> [] \<or> ?ks = []"
    using consistent_keys[OF assms(1)] by (auto simp: map_keys_def)
  have e: "\<forall>n \<in> set ?ks. \<forall>d \<in> set (graph_get (dependencyGraph m) n). precedes ([] @ ?ks) d n"
  proof (intro ballI)
    fix n d assume "n \<in> set ?ks" "d \<in> set (graph_get (dependencyGraph m) n)"
    then have "(n, d) \<in> dep_rel (dependencyGraph m)" by (simp add: dep_rel_def)
    then have "(n, d) \<in> set (declared_edges m)" by (simp add: consistent_dep_rel[OF assms(1)])
    then show "precedes ([] @ ?ks) d n" using assms(2) by auto
  qed
  from order_keeps_registration_order_aux[OF g d e] show ?thesis
    by (simp add: getInitialisationOrder_alt)
qed

lemma initialise_never_out_of_fuel: "snd (snd (initialise m)) \<noteq> Some OutOfFuel"
proof -
  have a: "validateDependencies m \<noteq> Inl OutOfFuel" using validate_errors[of m OutOfFuel] by auto
  have b: "getInitialisationOrder m \<noteq> Inl OutOfFuel" using order_errors[of m OutOfFuel] by auto
  have c: "snd (initialise_loop (modules m) order) \<noteq> Some OutOfFuel" for order
    using initialise_loop_failure[of "modules m" order _ OutOfFuel]
    by (cases "initialise_loop (modules m) order") auto
  show ?thesis
  proof (cases "isInitialised m")
    case True
    then show ?thesis by (simp add: initialise_def)
  next
    case False
    show ?thesis
    proof (cases "validateDependencies m")
      case (Inl e)
      then show ?thesis using a False by (auto simp: initialise_def)
    next
      case (Inr u)
      show ?thesis
      proof (cases "getInitialisationOrder m")
        case (Inl e)
        then show ?thesis using b False \<open>validateDependencies m = Inr u\<close> by (auto simp: initialise_def)
      next
        case (Inr order)
        then show ?thesis using c[of order] False \<open>validateDependencies m = Inr u\<close>
          by (cases "initialise_loop (modules m) order") (auto simp: initialise_def split: option.splits)
      qed
    qed
  qed
qed

lemma shutdown_never_out_of_fuel: "snd (snd (shutdown m)) \<noteq> Some OutOfFuel"
  using order_errors[of m OutOfFuel] by (auto simp: shutdown_def split: sum.splits)

lemma initialise_events:
  assumes "fst (snd (initialise m)) \<noteq> []"
  shows "\<exists>order. getInitialisationOrder m = Inr order \<and>
           initialise_loop (modules m) order = (fst (snd (initialise m)), snd (snd (initialise m)))"
  using assms by (auto simp: initialise_def split: if_splits sum.splits prod.splits option.splits)

subsection \<open>Registration keeps the manager consistent\<close>

lemma map_set_fresh: "\<not> map_has kvs k \<Longrightarrow> map_set kvs k v = kvs @ [(k, v)]"
  by (induction kvs) (auto simp: map_has_def)

lemma consistent_new_manager: "consistent new_manager"
  by (simp add: consistent_def new_manager_def map_keys_def)

lemma consistent_register:
  assumes "consistent m" and "register m md = Inr m'"
  shows "consistent m'"
proof -
  from assms(2) have fresh: "\<not> map_has (modules m) (name md)"
    and m': "m' = buildDependencyGraph (m\<lparr>modules := map_set (modules m) (name md) md\<rparr>) md"
    by (auto simp: register_def split: if_splits)
  have "map_of (dependencyGraph m) (name md) = None"
    using fresh assms(1) by (simp add: consistent_def map_of_graph map_has_def)
  then have fresh': "\<not> map_has (dependencyGraph m) (name md)" by (simp add: map_has_def)
  have key: "name md \<notin> set (map fst (modules m))"
    using fresh by (simp add: map_has_def map_of_eq_None_iff)
  have g: "dependencyGraph m = map (\<lambda>(n, md). (n, new_Set (dependencies md))) (modules m)"
    using assms(1) by (simp add: consistent_def)
  have "dependencyGraph m' = dependencyGraph m @ [(name md, new_Set (dependencies md))]"
    by (simp add: m' buildDependencyGraph_def map_set_fresh[OF fresh'])
  then have g': "dependencyGraph m' =
      map (\<lambda>(n, md). (n, new_Set (dependencies md))) (modules m @ [(name md, md)])"
    using g by simp
  have mods: "modules m' = modules m @ [(name md, md)]"
    by (simp add: m' buildDependencyGraph_def map_set_fresh[OF fresh])
  show ?thesis
    unfolding consistent_def g' mods using assms(1) key
    by (simp add: consistent_def map_keys_def)
qed

lemma consistent_unregister:
  assumes "consistent m" and "unregister m n = Inr m'"
  shows "consistent m'"
proof -
  from assms(2) have m': "m' = m\<lparr>modules := map_delete (modules m) n,
                        dependencyGraph := map_delete (dependencyGraph m) n\<rparr>"
    by (auto simp: unregister_def Let_def split: option.splits if_splits)
  have "map (\<lambda>(n, md). (n, new_Set (dependencies md))) (filter (\<lambda>kv. fst kv \<noteq> n) mods) =
        filter (\<lambda>kv. fst kv \<noteq> n) (map (\<lambda>(n, md). (n, new_Set (dependencies md))) mods)" for mods
    by (induction mods) auto
  note fm = this
  have "dependencyGraph m' = filter (\<lambda>kv. fst kv \<noteq> n) (dependencyGraph m)"
    by (simp add: m' map_delete_def)
  also have "\<dots> = filter (\<lambda>kv. fst kv \<noteq> n)
                     (map (\<lambda>(n, md). (n, new_Set (dependencies md))) (modules m))"
    using assms(1) by (simp only: consistent_def)
  also have "\<dots> = map (\<lambda>(n, md). (n, new_Set (dependencies md)))
                     (filter (\<lambda>kv. fst kv \<noteq> n) (modules m))"
    by (rule fm[symmetric])
  also have "\<dots> = map (\<lambda>(n, md). (n, new_Set (dependencies md))) (modules m')"
    by (simp add: m' map_delete_def)
  finally have g': "dependencyGraph m' =
      map (\<lambda>(n, md). (n, new_Set (dependencies md))) (modules m')" .
  have "distinct (map_keys (modules m'))"
    using assms(1) by (simp add: m' consistent_def map_delete_def map_keys_def distinct_map_filter)
  moreover have "list_all (\<lambda>(n, md). name md = n) (modules m')"
    using assms(1) by (auto simp: m' consistent_def map_delete_def list_all_iff)
  ultimately show ?thesis using g' by (simp only: consistent_def simp_thms)
qed

lemma consistent_register_all:
  "consistent m \<Longrightarrow> register_all m mds = Inr m' \<Longrightarrow> consistent m'"
  by (induction mds arbitrary: m) (auto split: sum.splits dest: consistent_register)

lemma consistent_initialise: "consistent m \<Longrightarrow> consistent (fst (initialise m))"
  by (auto simp: initialise_def consistent_def split: sum.splits prod.splits option.splits)

lemma consistent_shutdown: "consistent m \<Longrightarrow> consistent (fst (shutdown m))"
  by (auto simp: shutdown_def consistent_def split: sum.splits)

subsection \<open>More fuel does not change a result\<close>

lemma for_each_more_fuel:
  assumes "\<forall>x \<in> set xs. \<forall>t. f x t \<noteq> Inl OutOfFuel \<longrightarrow> f' x t = f x t"
    and "for_each f xs s \<noteq> Inl OutOfFuel"
  shows "for_each f' xs s = for_each f xs s"
  using assms
proof (induction xs arbitrary: s)
  case Nil
  then show ?case by simp
next
  case (Cons x xs)
  have nf: "f x s \<noteq> Inl OutOfFuel" using Cons.prems(2) by (auto split: sum.splits)
  have hd: "f' x s = f x s" using Cons.prems(1) nf by simp
  show ?case
  proof (cases "f x s")
    case (Inl e)
    then show ?thesis using hd by simp
  next
    case (Inr t)
    have "for_each f xs t \<noteq> Inl OutOfFuel" using Cons.prems(2) Inr by simp
    moreover have "\<forall>x \<in> set xs. \<forall>t. f x t \<noteq> Inl OutOfFuel \<longrightarrow> f' x t = f x t"
      using Cons.prems(1) by simp
    ultimately have "for_each f' xs t = for_each f xs t" by (rule Cons.IH[rotated])
    then show ?thesis using hd Inr by simp
  qed
qed

lemma detect_body_more_fuel:
  assumes "detect_visit (Suc k) g d t = detect_visit k g d t"
  shows "detect_body (Suc k) g n d t = detect_body k g n d t"
  using assms by (simp add: detect_body_def)

lemma detect_visit_more_fuel:
  "detect_visit k g n s \<noteq> Inl OutOfFuel \<Longrightarrow> detect_visit (Suc k) g n s = detect_visit k g n s"
proof (induction k arbitrary: n s)
  case 0
  then show ?case by simp
next
  case (Suc k)
  let ?s1 = "s\<lparr>visited := insert n (visited s), recursionStack := insert n (recursionStack s)\<rparr>"
  show ?case
  proof (cases "n \<in> recursionStack s \<or> n \<in> visited s")
    case True
    then show ?thesis by (auto simp: detect_visit_Suc)
  next
    case False
    then have loop: "for_each (detect_body k g n) (graph_get g n) ?s1 \<noteq> Inl OutOfFuel"
      using Suc.prems by (auto simp: detect_visit_Suc split: sum.splits)
    have "\<forall>d \<in> set (graph_get g n). \<forall>t. detect_body k g n d t \<noteq> Inl OutOfFuel \<longrightarrow>
            detect_body (Suc k) g n d t = detect_body k g n d t"
    proof (intro ballI allI impI)
      fix d t assume "detect_body k g n d t \<noteq> Inl OutOfFuel"
      then have "detect_visit k g d t \<noteq> Inl OutOfFuel" by (auto simp: detect_body_Inl)
      from Suc.IH[OF this] show "detect_body (Suc k) g n d t = detect_body k g n d t"
        by (rule detect_body_more_fuel)
    qed
    from for_each_more_fuel[OF this loop]
    show ?thesis using False by (simp add: detect_visit_Suc[of "Suc k"] detect_visit_Suc[of k])
  qed
qed

lemma order_visit_more_fuel:
  "order_visit k g n s \<noteq> Inl OutOfFuel \<Longrightarrow> order_visit (Suc k) g n s = order_visit k g n s"
proof (induction k arbitrary: n s)
  case 0
  then show ?case by simp
next
  case (Suc k)
  let ?s1 = "s\<lparr>visiting := insert n (visiting s)\<rparr>"
  show ?case
  proof (cases "n \<in> visiting s \<or> n \<in> done_names s")
    case True
    then show ?thesis by (auto simp: order_visit_Suc)
  next
    case False
    then have loop: "for_each (order_visit k g) (graph_get g n) ?s1 \<noteq> Inl OutOfFuel"
      using Suc.prems by (auto simp: order_visit_Suc split: sum.splits)
    have "\<forall>d \<in> set (graph_get g n). \<forall>t. order_visit k g d t \<noteq> Inl OutOfFuel \<longrightarrow>
            order_visit (Suc k) g d t = order_visit k g d t"
      using Suc.IH by blast
    from for_each_more_fuel[OF this loop]
    have eq: "for_each (order_visit (Suc k) g) (graph_get g n) ?s1 =
              for_each (order_visit k g) (graph_get g n) ?s1" .
    show ?thesis
      unfolding order_visit_Suc[of "Suc k" g n s] order_visit_Suc[of k g n s] eq by (rule refl)
  qed
qed

lemma detect_visit_enough_fuel:
  "detect_visit k g n s \<noteq> Inl OutOfFuel \<Longrightarrow> detect_visit (k + j) g n s = detect_visit k g n s"
proof (induction j)
  case 0
  then show ?case by simp
next
  case (Suc j)
  then have "detect_visit (k + j) g n s \<noteq> Inl OutOfFuel" by simp
  from detect_visit_more_fuel[OF this] Suc show ?case by simp
qed

lemma order_visit_enough_fuel:
  "order_visit k g n s \<noteq> Inl OutOfFuel \<Longrightarrow> order_visit (k + j) g n s = order_visit k g n s"
proof (induction j)
  case 0
  then show ?case by simp
next
  case (Suc j)
  then have "order_visit (k + j) g n s \<noteq> Inl OutOfFuel" by simp
  from order_visit_more_fuel[OF this] Suc show ?case by simp
qed

subsection \<open>Managers with the same registry\<close>


lemma same_registry_keys:
  assumes "same_registry m m2"
  shows "map_keys (modules m2) = map_keys (modules m)"
proof -
  have "map fst (map (\<lambda>(n, md). (n, isEnabled md)) mods) = map fst mods" for mods :: "(string \<times> module) list"
    by (induction mods) auto
  then show ?thesis using assms unfolding same_registry_def map_keys_def by metis
qed

lemma same_registry_enabled:
  assumes "same_registry m m2"
  shows "module_enabled m2 n = module_enabled m n"
proof -
  have "module_enabled x n = (map_of (map (\<lambda>(n, md). (n, isEnabled md)) (modules x)) n = Some True)" for x
    by (simp add: module_enabled_def map_of_graph split: option.splits)
  then show ?thesis using assms by (simp add: same_registry_def)
qed

lemma map_has_keys: "map_has kvs k \<longleftrightarrow> k \<in> set (map_keys kvs)"
  by (simp add: map_has_def map_keys_def map_of_eq_None_iff)

lemma same_registry_validate:
  assumes "same_registry m m2"
  shows "validateDependencies m2 = validateDependencies m"
proof -
  have k: "map_keys (modules m2) = map_keys (modules m)" by (rule same_registry_keys[OF assms])
  have g: "dependencyGraph m2 = dependencyGraph m" using assms by (simp add: same_registry_def)
  have d: "detectCircularDependencies m2 = detectCircularDependencies m"
    unfolding detectCircularDependencies_def k g by (rule refl)
  show ?thesis unfolding validateDependencies_def map_has_keys k g d by (rule refl)
qed

lemma same_registry_order:
  assumes "same_registry m m2"
  shows "getInitialisationOrder m2 = getInitialisationOrder m"
proof -
  have k: "map_keys (modules m2) = map_keys (modules m)" by (rule same_registry_keys[OF assms])
  have g: "dependencyGraph m2 = dependencyGraph m" using assms by (simp add: same_registry_def)
  show ?thesis unfolding getInitialisationOrder_def k g by (rule refl)
qed

lemma initialise_loop_names:
  "initialise_loop (modules m) order = (evs, r) \<Longrightarrow>
     map event_module evs = take (length evs) (filter (module_enabled m) order)"
proof (induction order arbitrary: evs r)
  case Nil
  then show ?case by simp
next
  case (Cons x rest)
  obtain evs' r' where rest: "initialise_loop (modules m) rest = (evs', r')"
    by (cases "initialise_loop (modules m) rest")
  from Cons.prems rest Cons.IH[OF rest] show ?case
    by (auto simp: initialise_loop_Cons simp del: initialise_loop.simps split: if_splits)
qed

lemma initialise_loop_nonempty:
  "initialise_loop (modules m) order = (evs, r) \<Longrightarrow> filter (module_enabled m) order \<noteq> [] \<Longrightarrow>
     evs \<noteq> []"
proof (induction order arbitrary: evs r)
  case Nil
  then show ?case by simp
next
  case (Cons x rest)
  obtain evs' r' where rest: "initialise_loop (modules m) rest = (evs', r')"
    by (cases "initialise_loop (modules m) rest")
  from Cons.prems rest Cons.IH[OF rest] show ?case
    by (auto simp: initialise_loop_Cons simp del: initialise_loop.simps split: if_splits)
qed

lemma initialise_loop_all_completed:
  "initialise_loop (modules m) order = (evs, None) \<Longrightarrow>
     evs = map InitCompleted (filter (module_enabled m) order)"
proof (induction order arbitrary: evs)
  case Nil
  then show ?case by simp
next
  case (Cons x rest)
  obtain evs' r' where rest: "initialise_loop (modules m) rest = (evs', r')"
    by (cases "initialise_loop (modules m) rest")
  from Cons.prems rest Cons.IH[of evs'] show ?case
    by (auto simp: initialise_loop_Cons simp del: initialise_loop.simps split: if_splits)
qed

section \<open>Claims about the module manager\<close>

text \<open>
  C1 (as amended). For a consistent manager whose declared dependencies are all
  registered and acyclic: \<^verbatim>\<open>getInitialisationOrder\<close> returns an order that lists every
  registered module exactly once and places every module after all of its declared
  dependencies; when the registration order already does so, it is the order returned.
  \<^verbatim>\<open>initialise\<close> invokes only initialisers of enabled modules, and each one only after
  the initialisers of all of that module's enabled declared dependencies have
  completed; a disabled dependency is skipped and does not hold its dependents back.
  When no initialiser throws, every enabled module is initialised and the manager is
  marked initialised.
\<close>

theorem initialise_after_enabled_dependencies:
  assumes c: "consistent m" and r: "dependencies_registered m"
    and a: "acyclic (set (declared_edges m))"
  shows "\<exists>order. getInitialisationOrder m = Inr order \<and>
           distinct order \<and> set order = set (map_keys (modules m)) \<and>
           (\<forall>(n, d) \<in> set (declared_edges m). precedes order d n) \<and>
           ((\<forall>(n, d) \<in> set (declared_edges m). precedes (map_keys (modules m)) d n) \<longrightarrow>
              order = map_keys (modules m)) \<and>
           (\<forall>n. initialiser_invoked (fst (snd (initialise m))) n \<longrightarrow>
              module_enabled m n \<and>
              (\<forall>d. (n, d) \<in> set (declared_edges m) \<and> module_enabled m d \<longrightarrow>
                 completed_before (fst (snd (initialise m))) d n)) \<and>
           (\<not> isInitialised m \<and> snd (snd (initialise m)) = None \<longrightarrow>
              fst (initialise m) = m\<lparr>isInitialised := True\<rparr> \<and>
              (\<forall>n. module_enabled m n \<longrightarrow> InitCompleted n \<in> set (fst (snd (initialise m)))))"
proof -
  let ?g = "dependencyGraph m" and ?evs = "fst (snd (initialise m))"
  have rel: "dep_rel ?g = set (declared_edges m)" by (rule consistent_dep_rel[OF c])
  then have acyc: "acyclic (dep_rel ?g)" using a by simp
  from order_acyclic[OF acyc] obtain order where order: "getInitialisationOrder m = Inr order"
    by blast
  note res = order_result[OF order]
  have edge_graph: "d \<in> set (graph_get ?g n)" if "(n, d) \<in> set (declared_edges m)" for n d
    using that rel by (auto simp: dep_rel_def)
  have edge_key: "n \<in> set (map_keys (modules m))" if "(n, d) \<in> set (declared_edges m)" for n d
    using that by (force simp: declared_edges_iff map_keys_def)
  have prec: "precedes order d n" if "(n, d) \<in> set (declared_edges m)" for n d
    using res edge_graph[OF that] edge_key[OF that] by blast
  have closed: "\<forall>x \<in> set (map_keys (modules m)). set (graph_get ?g x) \<subseteq> set (map_keys (modules m))"
  proof (intro ballI subsetI)
    fix x d assume "x \<in> set (map_keys (modules m))" "d \<in> set (graph_get ?g x)"
    then have "(x, d) \<in> set (declared_edges m)" using rel by (auto simp: dep_rel_def)
    then have "map_has (modules m) d" using r by (auto simp: dependencies_registered_def list_all_iff)
    then show "d \<in> set (map_keys (modules m))"
      by (simp add: map_has_def map_keys_def map_of_eq_None_iff)
  qed
  have keys: "set order = set (map_keys (modules m))"
    by (rule order_within_keys[OF order closed])
  have valid: "validateDependencies m = Inr ()"
    using validate_ok[OF c r] detect_sound[OF acyc] by simp
  have loop: "initialise_loop (modules m) order = (?evs, snd (snd (initialise m)))"
    if "?evs \<noteq> [] \<or> \<not> isInitialised m"
    using that order valid
    by (cases "initialise_loop (modules m) order")
       (auto simp: initialise_def split: option.splits if_splits)
  have safe: "module_enabled m n \<and>
              (\<forall>d. (n, d) \<in> set (declared_edges m) \<and> module_enabled m d \<longrightarrow> completed_before ?evs d n)"
    if inv: "initialiser_invoked ?evs n" for n
  proof -
    from inv have "?evs \<noteq> []" by (auto simp: initialiser_invoked_def)
    then have l: "initialise_loop (modules m) order = (?evs, snd (snd (initialise m)))"
      using loop by simp
    from initialise_loop_invoked[OF l inv] have en: "module_enabled m n" by simp
    have "completed_before ?evs d n" if "(n, d) \<in> set (declared_edges m)" "module_enabled m d" for d
      by (rule initialise_loop_order[OF l _ inv prec[OF that(1)] that(2)]) (use res in simp)
    then show ?thesis using en by blast
  qed
  have live: "fst (initialise m) = m\<lparr>isInitialised := True\<rparr> \<and>
              (\<forall>n. module_enabled m n \<longrightarrow> InitCompleted n \<in> set ?evs)"
    if ni: "\<not> isInitialised m" and ok: "snd (snd (initialise m)) = None"
  proof -
    from loop ni ok have l: "initialise_loop (modules m) order = (?evs, None)" by simp
    have "InitCompleted n \<in> set ?evs" if "module_enabled m n" for n
    proof -
      from that have "map_of (modules m) n \<noteq> None"
        by (auto simp: module_enabled_def split: option.splits)
      then have "n \<in> set order" using keys by (simp add: map_keys_def map_of_eq_None_iff)
      from initialise_loop_complete[OF l this that] show ?thesis .
    qed
    moreover have "fst (initialise m) = m\<lparr>isInitialised := True\<rparr>"
      using ni valid order l
      by (cases "initialise_loop (modules m) order") (auto simp: initialise_def split: option.splits)
    ultimately show ?thesis by blast
  qed
  have reg: "order = map_keys (modules m)"
    if "\<forall>(n, d) \<in> set (declared_edges m). precedes (map_keys (modules m)) d n"
    using order_keeps_registration_order[OF c that] order by simp
  show ?thesis
    using order res keys prec safe live reg by (intro exI[of _ order]) blast
qed

theorem initialise_after_enabled_dependencies_witness:
  "register_all new_manager
     [plain_module ''api'' [''auth'', ''db''] True, plain_module ''auth'' [''db''] True,
      plain_module ''db'' [] True] = Inr layered_manager \<and>
   consistent layered_manager \<and> dependencies_registered layered_manager \<and>
   acyclic (set (declared_edges layered_manager)) \<and>
   getInitialisationOrder layered_manager = Inr [''db'', ''auth'', ''api''] \<and>
   fst (snd (initialise layered_manager)) =
     [InitCompleted ''db'', InitCompleted ''auth'', InitCompleted ''api''] \<and>
   completed_before (fst (snd (initialise layered_manager))) ''db'' ''api''"
proof -
  have c: "consistent layered_manager"
    by (simp add: layered_manager_def plain_module_def consistent_def map_keys_def)
  have r: "dependencies_registered layered_manager"
    by (simp add: layered_manager_def plain_module_def dependencies_registered_def declared_edges_def map_has_def)
  have e: "set (declared_edges layered_manager) =
             {(''api'', ''auth''), (''api'', ''db''), (''auth'', ''db'')}"
    by (simp add: layered_manager_def plain_module_def declared_edges_def)
  have a: "acyclic (set (declared_edges layered_manager))"
    unfolding e
    by (rule acyclicI_order[where f = "\<lambda>n. if n = ''api'' then 2 else if n = ''auth'' then 1 else (0::nat)"])
       auto
  have o: "getInitialisationOrder layered_manager = Inr [''db'', ''auth'', ''api'']"
    by code_simp
  have i: "fst (snd (initialise layered_manager)) =
             [InitCompleted ''db'', InitCompleted ''auth'', InitCompleted ''api'']"
    by code_simp
  have inv: "initialiser_invoked (fst (snd (initialise layered_manager))) ''api''"
    unfolding i by (simp add: initialiser_invoked_def)
  have en: "module_enabled layered_manager ''db''"
    by (simp add: layered_manager_def plain_module_def module_enabled_def)
  have "completed_before (fst (snd (initialise layered_manager))) ''db'' ''api''"
    using initialise_after_enabled_dependencies[OF c r a] inv en e by blast
  moreover have "register_all new_manager
     [plain_module ''api'' [''auth'', ''db''] True, plain_module ''auth'' [''db''] True,
      plain_module ''db'' [] True] = Inr layered_manager"
    by (simp add: layered_manager_def plain_module_def register_def new_manager_def map_has_def
          buildDependencyGraph_def)
  ultimately show ?thesis using c r a o i by simp
qed

text \<open>
  C1 as stated fails when a declared dependency is disabled: module \<open>A\<close> is enabled and
  depends on the disabled module \<open>B\<close>. The graph is acyclic and every dependency is
  registered, yet the initialiser of \<open>A\<close> is invoked although the initialiser of \<open>B\<close>
  never completes.
\<close>

theorem initialise_with_disabled_dependency_counterexample:
  "register_all new_manager [plain_module ''A'' [''B''] True, plain_module ''B'' [] False] =
     Inr disabled_dependency_manager \<and>
   consistent disabled_dependency_manager \<and>
   dependencies_registered disabled_dependency_manager \<and>
   acyclic (set (declared_edges disabled_dependency_manager)) \<and>
   (''A'', ''B'') \<in> set (declared_edges disabled_dependency_manager) \<and>
   module_enabled disabled_dependency_manager ''A'' \<and>
   initialise disabled_dependency_manager =
     (disabled_dependency_manager\<lparr>isInitialised := True\<rparr>, [InitCompleted ''A''], None) \<and>
   initialiser_invoked [InitCompleted ''A''] ''A'' \<and>
   \<not> completed_before [InitCompleted ''A''] ''B'' ''A''"
proof -
  have e: "set (declared_edges disabled_dependency_manager) = {(''A'', ''B'')}"
    by (simp add: disabled_dependency_manager_def plain_module_def declared_edges_def)
  have a: "acyclic (set (declared_edges disabled_dependency_manager))"
    unfolding e
    by (rule acyclicI_order[where f = "\<lambda>n. if n = ''A'' then 1 else (0::nat)"]) auto
  have i: "initialise disabled_dependency_manager =
     (disabled_dependency_manager\<lparr>isInitialised := True\<rparr>, [InitCompleted ''A''], None)"
    by code_simp
  have g: "register_all new_manager [plain_module ''A'' [''B''] True, plain_module ''B'' [] False] =
     Inr disabled_dependency_manager"
    by (simp add: disabled_dependency_manager_def plain_module_def register_def new_manager_def
          map_has_def buildDependencyGraph_def)
  show ?thesis
    using a i e g
    by (simp add: disabled_dependency_manager_def plain_module_def consistent_def map_keys_def
          dependencies_registered_def declared_edges_def map_has_def module_enabled_def
          initialiser_invoked_def completed_before_def precedes_def)
qed

text \<open>
  C2 (as amended). On a consistent manager that is not yet initialised and whose
  dependency graph contains a cycle, \<^verbatim>\<open>initialise\<close> throws before any initialiser is
  invoked and leaves the manager as it was. When every declared dependency is
  registered, the error is the circular-dependency error. When some declared dependency
  is not registered, the error is the missing-dependency error instead, and it names a
  declared dependency that is not registered: validation looks for missing dependencies
  before it looks for cycles.
\<close>

theorem initialise_rejects_cycle:
  assumes c: "consistent m" and a: "\<not> acyclic (set (declared_edges m))"
    and ni: "\<not> isInitialised m"
  shows "(dependencies_registered m \<longrightarrow>
            (\<exists>x. initialise m = (m, [], Some (CircularDependency x)))) \<and>
         (\<not> dependencies_registered m \<longrightarrow>
            (\<exists>n d. initialise m = (m, [], Some (DependencyNotRegistered n d)) \<and>
               (n, d) \<in> set (declared_edges m) \<and> \<not> map_has (modules m) d))"
proof (intro conjI impI)
  assume r: "dependencies_registered m"
  have keys: "fst ` set (dependencyGraph m) \<subseteq> set (map_keys (modules m))"
    using consistent_keys[OF c] by (simp add: map_keys_def flip: set_map)
  have cyc: "\<not> acyclic (dep_rel (dependencyGraph m))"
    using a by (simp add: consistent_dep_rel[OF c])
  have det: "\<exists>x. detectCircularDependencies m = Inl (CircularDependency x)"
  proof (cases "detectCircularDependencies m")
    case (Inl e)
    then show ?thesis using detect_errors by blast
  next
    case (Inr u)
    then have "detectCircularDependencies m = Inr ()" by simp
    from detect_complete[OF this keys] cyc show ?thesis by simp
  qed
  then show "\<exists>x. initialise m = (m, [], Some (CircularDependency x))"
    using validate_ok[OF c r] ni by (auto simp: initialise_def)
next
  assume "\<not> dependencies_registered m"
  from validate_missing[OF c this] obtain n d where
    v: "validateDependencies m = Inl (DependencyNotRegistered n d)"
    and e: "(n, d) \<in> set (declared_edges m)" "\<not> map_has (modules m) d"
    by blast
  from v ni have "initialise m = (m, [], Some (DependencyNotRegistered n d))"
    by (simp add: initialise_def)
  then show "\<exists>n d. initialise m = (m, [], Some (DependencyNotRegistered n d)) \<and>
               (n, d) \<in> set (declared_edges m) \<and> \<not> map_has (modules m) d"
    using e by blast
qed

theorem initialise_rejects_cycle_witness:
  "register_all new_manager [plain_module ''A'' [''B''] True, plain_module ''B'' [''A''] True] =
     Inr cyclic_manager \<and>
   consistent cyclic_manager \<and> \<not> acyclic (set (declared_edges cyclic_manager)) \<and>
   \<not> isInitialised cyclic_manager \<and> dependencies_registered cyclic_manager \<and>
   initialise cyclic_manager = (cyclic_manager, [], Some (CircularDependency ''B'')) \<and>
   consistent cyclic_ghost_manager \<and> \<not> acyclic (set (declared_edges cyclic_ghost_manager)) \<and>
   \<not> isInitialised cyclic_ghost_manager \<and> \<not> dependencies_registered cyclic_ghost_manager \<and>
   (\<exists>n d. initialise cyclic_ghost_manager =
            (cyclic_ghost_manager, [], Some (DependencyNotRegistered n d)) \<and>
          (n, d) \<in> set (declared_edges cyclic_ghost_manager) \<and>
          \<not> map_has (modules cyclic_ghost_manager) d)"
proof -
  have c: "consistent cyclic_manager"
    by (simp add: cyclic_manager_def plain_module_def consistent_def map_keys_def)
  have e: "set (declared_edges cyclic_manager) = {(''A'', ''B''), (''B'', ''A'')}"
    by (simp add: cyclic_manager_def plain_module_def declared_edges_def)
  have "(''A'', ''A'') \<in> {(''A'', ''B''), (''B'', ''A'')}\<^sup>+"
    by (rule trancl_trans[of _ "''B''"]) auto
  then have a: "\<not> acyclic (set (declared_edges cyclic_manager))"
    unfolding e acyclic_def by blast
  have ni: "\<not> isInitialised cyclic_manager" by (simp add: cyclic_manager_def plain_module_def)
  have r: "dependencies_registered cyclic_manager"
    by (simp add: cyclic_manager_def plain_module_def dependencies_registered_def declared_edges_def map_has_def)
  from initialise_rejects_cycle[OF c a ni] r
  obtain x where "initialise cyclic_manager = (cyclic_manager, [], Some (CircularDependency x))"
    by blast
  moreover have "snd (snd (initialise cyclic_manager)) = Some (CircularDependency ''B'')"
    by code_simp
  moreover have "register_all new_manager
      [plain_module ''A'' [''B''] True, plain_module ''B'' [''A''] True] = Inr cyclic_manager"
    by (simp add: cyclic_manager_def plain_module_def register_def new_manager_def map_has_def
          buildDependencyGraph_def)
  ultimately have first:
    "register_all new_manager [plain_module ''A'' [''B''] True, plain_module ''B'' [''A''] True] =
       Inr cyclic_manager \<and>
     initialise cyclic_manager = (cyclic_manager, [], Some (CircularDependency ''B''))"
    by simp
  have c': "consistent cyclic_ghost_manager"
    by (simp add: cyclic_ghost_manager_def plain_module_def consistent_def map_keys_def)
  have e': "set (declared_edges cyclic_ghost_manager) =
             {(''A'', ''B''), (''A'', ''ghost''), (''B'', ''A'')}"
    by (simp add: cyclic_ghost_manager_def plain_module_def declared_edges_def)
  have "(''A'', ''A'') \<in> {(''A'', ''B''), (''A'', ''ghost''), (''B'', ''A'')}\<^sup>+"
    by (rule trancl_trans[of _ "''B''"]) auto
  then have a': "\<not> acyclic (set (declared_edges cyclic_ghost_manager))"
    unfolding e' acyclic_def by blast
  have ni': "\<not> isInitialised cyclic_ghost_manager"
    by (simp add: cyclic_ghost_manager_def plain_module_def)
  have r': "\<not> dependencies_registered cyclic_ghost_manager"
    by (simp add: cyclic_ghost_manager_def plain_module_def dependencies_registered_def
          declared_edges_def map_has_def)
  from initialise_rejects_cycle[OF c' a' ni'] r'
  have second: "\<exists>n d. initialise cyclic_ghost_manager =
            (cyclic_ghost_manager, [], Some (DependencyNotRegistered n d)) \<and>
          (n, d) \<in> set (declared_edges cyclic_ghost_manager) \<and>
          \<not> map_has (modules cyclic_ghost_manager) d"
    by blast
  show ?thesis using first c a ni r c' a' ni' r' second by blast
qed

text \<open>
  C2 as stated fails in two ways. When the cyclic graph also names an unregistered
  dependency (\<open>A\<close> depends on \<open>B\<close> and on the unregistered \<open>ghost\<close>, \<open>B\<close> depends on
  \<open>A\<close>), the error raised is the missing-dependency error, not the circular-dependency
  error. When the manager is already initialised (here it was initialised while empty,
  and \<open>A\<close> and \<open>B\<close> were registered afterwards), \<^verbatim>\<open>initialise\<close> returns at its guard and
  raises nothing.
\<close>

theorem initialise_cycle_without_circular_error_counterexample:
  "register_all new_manager
     [plain_module ''A'' [''B'', ''ghost''] True, plain_module ''B'' [''A''] True] =
     Inr cyclic_ghost_manager \<and>
   consistent cyclic_ghost_manager \<and> \<not> isInitialised cyclic_ghost_manager \<and>
   \<not> acyclic (set (declared_edges cyclic_ghost_manager)) \<and>
   initialise cyclic_ghost_manager =
     (cyclic_ghost_manager, [], Some (DependencyNotRegistered ''A'' ''ghost'')) \<and>
   initialise new_manager = (new_manager\<lparr>isInitialised := True\<rparr>, [], None) \<and>
   register_all (new_manager\<lparr>isInitialised := True\<rparr>)
     [plain_module ''A'' [''B''] True, plain_module ''B'' [''A''] True] =
     Inr initialised_cyclic_manager \<and>
   consistent initialised_cyclic_manager \<and> dependencies_registered initialised_cyclic_manager \<and>
   \<not> acyclic (set (declared_edges initialised_cyclic_manager)) \<and>
   initialise initialised_cyclic_manager = (initialised_cyclic_manager, [], None)"
proof -
  have e: "set (declared_edges cyclic_ghost_manager) =
             {(''A'', ''B''), (''A'', ''ghost''), (''B'', ''A'')}"
    by (simp add: cyclic_ghost_manager_def plain_module_def declared_edges_def)
  have "(''A'', ''A'') \<in> {(''A'', ''B''), (''A'', ''ghost''), (''B'', ''A'')}\<^sup>+"
    by (rule trancl_trans[of _ "''B''"]) auto
  then have a: "\<not> acyclic (set (declared_edges cyclic_ghost_manager))"
    unfolding e acyclic_def by blast
  have i: "initialise cyclic_ghost_manager =
     (cyclic_ghost_manager, [], Some (DependencyNotRegistered ''A'' ''ghost''))"
    by code_simp
  have g: "register_all new_manager
     [plain_module ''A'' [''B'', ''ghost''] True, plain_module ''B'' [''A''] True] =
     Inr cyclic_ghost_manager"
    by (simp add: cyclic_ghost_manager_def plain_module_def register_def new_manager_def
          map_has_def buildDependencyGraph_def)
  have cg: "consistent cyclic_ghost_manager \<and> \<not> isInitialised cyclic_ghost_manager"
    by (simp add: cyclic_ghost_manager_def plain_module_def consistent_def map_keys_def)
  have i0: "initialise new_manager = (new_manager\<lparr>isInitialised := True\<rparr>, [], None)"
    by code_simp
  have g2: "register_all (new_manager\<lparr>isInitialised := True\<rparr>)
     [plain_module ''A'' [''B''] True, plain_module ''B'' [''A''] True] =
     Inr initialised_cyclic_manager"
    by (simp add: initialised_cyclic_manager_def plain_module_def register_def new_manager_def
          map_has_def buildDependencyGraph_def)
  have ci: "consistent initialised_cyclic_manager \<and> dependencies_registered initialised_cyclic_manager"
    by (simp add: initialised_cyclic_manager_def plain_module_def consistent_def map_keys_def
          dependencies_registered_def declared_edges_def map_has_def)
  have e2: "set (declared_edges initialised_cyclic_manager) = {(''A'', ''B''), (''B'', ''A'')}"
    by (simp add: initialised_cyclic_manager_def plain_module_def declared_edges_def)
  have "(''A'', ''A'') \<in> {(''A'', ''B''), (''B'', ''A'')}\<^sup>+"
    by (rule trancl_trans[of _ "''B''"]) auto
  then have a2: "\<not> acyclic (set (declared_edges initialised_cyclic_manager))"
    unfolding e2 acyclic_def by blast
  have i2: "initialise initialised_cyclic_manager = (initialised_cyclic_manager, [], None)"
    by (simp add: initialise_def initialised_cyclic_manager_def)
  show ?thesis using a i g cg i0 g2 ci a2 i2 by blast
qed

text \<open>
  C5. \<^verbatim>\<open>initialise\<close> skips the disabled module \<open>D\<close> and still initialises the enabled
  module \<open>E\<close>, but the following \<^verbatim>\<open>shutdown\<close> awaits the shutdown hook of \<open>D\<close> as well:
  its loop tests only that the module exists, not \<^verbatim>\<open>isEnabled()\<close>.
\<close>

theorem shutdown_invokes_hook_of_disabled_module:
  "register_all new_manager [plain_module ''E'' [] True, plain_module ''D'' [] False] =
     Inr mixed_manager \<and>
   \<not> module_enabled mixed_manager ''D'' \<and>
   initialise mixed_manager = (mixed_manager\<lparr>isInitialised := True\<rparr>, [InitCompleted ''E''], None) \<and>
   shutdown (mixed_manager\<lparr>isInitialised := True\<rparr>) =
     (mixed_manager, [ShutdownCompleted ''D'', ShutdownCompleted ''E''], None) \<and>
   shutdown_invoked [ShutdownCompleted ''D'', ShutdownCompleted ''E''] ''D''"
proof -
  have r: "register_all new_manager [plain_module ''E'' [] True, plain_module ''D'' [] False] =
     Inr mixed_manager"
    by (simp add: mixed_manager_def plain_module_def register_def new_manager_def map_has_def buildDependencyGraph_def)
  have i: "initialise mixed_manager = (mixed_manager\<lparr>isInitialised := True\<rparr>, [InitCompleted ''E''], None)"
    by code_simp
  have s: "shutdown (mixed_manager\<lparr>isInitialised := True\<rparr>) =
     (mixed_manager, [ShutdownCompleted ''D'', ShutdownCompleted ''E''], None)"
    by code_simp
  show ?thesis using r i s
    by (simp add: mixed_manager_def plain_module_def module_enabled_def shutdown_invoked_def)
qed

text \<open>
  C9. When \<^verbatim>\<open>initialise\<close> fails because a module's initialiser throws, the manager is
  left as it was, with \<^verbatim>\<open>isInitialised\<close> false. A second call is therefore not the
  no-op of an initialised manager: it validates again and runs the ordered sequence
  again from its start. With hooks that behave as before it fails in the same way,
  after invoking again the initialiser of every module that had completed. Whatever the
  hooks do the second time, the second call invokes initialisers along the same order of
  enabled modules, at least one of them, and when it succeeds it has invoked again every
  initialiser that the failed attempt had invoked.
\<close>

theorem failed_initialise_runs_again:
  assumes "initialise m = (m', evs, Some (InitialiserFailed n))"
  shows "m' = m \<and> \<not> isInitialised m' \<and> InitThrew n \<in> set evs \<and>
         initialise m' = (m', evs, Some (InitialiserFailed n)) \<and>
         (\<forall>x. InitCompleted x \<in> set evs \<longrightarrow> initialiser_invoked (fst (snd (initialise m'))) x) \<and>
         (\<forall>m2. same_registry m' m2 \<longrightarrow>
            validateDependencies m2 = Inr () \<and>
            (\<exists>order. getInitialisationOrder m2 = Inr order \<and>
               initialise_loop (modules m2) order = (fst (snd (initialise m2)), snd (snd (initialise m2))) \<and>
               map event_module evs = take (length evs) (filter (module_enabled m') order) \<and>
               map event_module (fst (snd (initialise m2))) =
                 take (length (fst (snd (initialise m2)))) (filter (module_enabled m') order)) \<and>
            fst (snd (initialise m2)) \<noteq> [] \<and>
            (snd (snd (initialise m2)) = None \<longrightarrow>
               (\<forall>x. initialiser_invoked evs x \<longrightarrow> InitCompleted x \<in> set (fst (snd (initialise m2))))))"
proof -
  have ni: "\<not> isInitialised m" using assms by (auto simp: initialise_def)
  have v: "validateDependencies m = Inr ()"
    using assms ni validate_errors[of m "InitialiserFailed n"]
    by (cases "validateDependencies m") (auto simp: initialise_def)
  obtain order where o: "getInitialisationOrder m = Inr order"
    using assms ni v order_errors[of m "InitialiserFailed n"]
    by (cases "getInitialisationOrder m") (auto simp: initialise_def)
  have l: "initialise_loop (modules m) order = (evs, Some (InitialiserFailed n))" and m': "m' = m"
    using assms ni v o
    by (cases "initialise_loop (modules m) order"; auto simp: initialise_def split: option.splits)+
  from initialise_loop_failure[OF l] have t: "InitThrew n \<in> set evs" by simp
  note names = initialise_loop_names[OF l]
  have ne: "filter (module_enabled m) order \<noteq> []"
  proof
    assume "filter (module_enabled m) order = []"
    then have "map event_module evs = []" using names by simp
    then show False using t by auto
  qed
  have second: "validateDependencies m2 = Inr () \<and>
            (\<exists>order. getInitialisationOrder m2 = Inr order \<and>
               initialise_loop (modules m2) order = (fst (snd (initialise m2)), snd (snd (initialise m2))) \<and>
               map event_module evs = take (length evs) (filter (module_enabled m) order) \<and>
               map event_module (fst (snd (initialise m2))) =
                 take (length (fst (snd (initialise m2)))) (filter (module_enabled m) order)) \<and>
            fst (snd (initialise m2)) \<noteq> [] \<and>
            (snd (snd (initialise m2)) = None \<longrightarrow>
               (\<forall>x. initialiser_invoked evs x \<longrightarrow> InitCompleted x \<in> set (fst (snd (initialise m2)))))"
    if sr: "same_registry m m2" for m2
  proof -
    let ?evs2 = "fst (snd (initialise m2))" and ?r2 = "snd (snd (initialise m2))"
    have ni2: "\<not> isInitialised m2" using sr ni by (simp add: same_registry_def)
    have v2: "validateDependencies m2 = Inr ()" using same_registry_validate[OF sr] v by simp
    have o2: "getInitialisationOrder m2 = Inr order" using same_registry_order[OF sr] o by simp
    have l2: "initialise_loop (modules m2) order = (?evs2, ?r2)"
      using ni2 v2 o2
      by (cases "initialise_loop (modules m2) order") (auto simp: initialise_def split: option.splits)
    have en: "module_enabled m2 = module_enabled m"
      using same_registry_enabled[OF sr] by (intro ext)
    have names2: "map event_module ?evs2 = take (length ?evs2) (filter (module_enabled m) order)"
      using initialise_loop_names[OF l2] en by simp
    have ne2: "?evs2 \<noteq> []" using initialise_loop_nonempty[OF l2] ne en by simp
    have all: "InitCompleted x \<in> set ?evs2" if r2: "?r2 = None" and inv: "initialiser_invoked evs x" for x
    proof -
      from inv have "x \<in> set (map event_module evs)"
        by (force simp: initialiser_invoked_def)
      then have "x \<in> set (filter (module_enabled m) order)"
        using names by (metis in_set_takeD)
      moreover have "?evs2 = map InitCompleted (filter (module_enabled m) order)"
        using initialise_loop_all_completed[of m2 order ?evs2] l2 r2 en by simp
      ultimately show ?thesis by auto
    qed
    show ?thesis using v2 o2 l2 names names2 ne2 all by blast
  qed
  show ?thesis using ni v o l m' t assms second
    by (auto simp: initialiser_invoked_def)
qed

theorem failed_initialise_runs_again_witness:
  "initialise failing_manager =
     (failing_manager, [InitCompleted ''db'', InitThrew ''auth''], Some (InitialiserFailed ''auth'')) \<and>
   \<not> isInitialised failing_manager \<and>
   initialiser_invoked (fst (snd (initialise failing_manager))) ''db'' \<and>
   same_registry failing_manager recovered_manager \<and>
   initialise recovered_manager =
     (recovered_manager\<lparr>isInitialised := True\<rparr>, [InitCompleted ''db'', InitCompleted ''auth''], None)"
proof -
  have i: "initialise failing_manager =
     (failing_manager, [InitCompleted ''db'', InitThrew ''auth''], Some (InitialiserFailed ''auth''))"
    by code_simp
  have s: "same_registry failing_manager recovered_manager"
    by (simp add: same_registry_def failing_manager_def recovered_manager_def plain_module_def)
  have r: "initialise recovered_manager =
     (recovered_manager\<lparr>isInitialised := True\<rparr>, [InitCompleted ''db'', InitCompleted ''auth''], None)"
    by code_simp
  from failed_initialise_runs_again[OF i] s
  have "\<not> isInitialised failing_manager"
    and "initialiser_invoked (fst (snd (initialise failing_manager))) ''db''"
    and "fst (snd (initialise recovered_manager)) \<noteq> []"
    by auto
  then show ?thesis using i s r by simp
qed

section \<open>Properties of the HTTP server, the route manager and the middleware manager\<close>

subsection \<open>Maps\<close>

lemma map_of_map_set: "map_of (map_set kvs k v) = (map_of kvs)(k \<mapsto> v)"
  by (induction kvs) auto

subsection \<open>Route matching\<close>

lemma split_not_Nil [simp]: "split sep s \<noteq> []"
  by (induction s) (auto split: list.splits)

lemma split_leading_separator: "split sep (sep # s) = [] # split sep s"
  by simp

lemma matchRoute_leading_slash: "matchRoute pattern (CHR ''/'' # rest) = None"
proof (cases "split CHR ''/'' pattern")
  case Nil
  then show ?thesis using split_not_Nil by blast
next
  case (Cons p ps)
  then show ?thesis by (simp add: matchRoute_def)
qed

lemma findParameterizedRoute_leading_slash:
  "findParameterizedRoute rs meth (CHR ''/'' # rest) = None"
proof (induction rs)
  case Nil
  then show ?case by simp
next
  case (Cons r rs)
  obtain k h where r: "r = (k, h)" by (cases r)
  show ?case using Cons
    by (simp add: r matchRoute_leading_slash del: matchRoute_def split.simps split: list.splits)
qed

lemma matchRoute_relative_example:
  "matchRoute ''users/:id'' ''users/42'' = Some [(''id'', ''42'')]"
  by (simp add: matchRoute_def)

subsection \<open>The closure next\<close>






lemma next_middleware_passes_on:
  assumes m: "\<forall>mw \<in> set (middlewares srv). passes_on mw"
    and "sent (wrapped rs) = None" and "length (middlewares srv) - i < d"
  shows "\<exists>j rq' rs'. next_middleware d srv i (rq, rs) = (j, executeRoute srv rq' rs') \<and>
           http_method rq' = http_method rq \<and> pathname rq' = pathname rq \<and>
           sent (wrapped rs') = None"
  using assms(2,3)
proof (induction d arbitrary: i rq rs)
  case 0
  then show ?case by simp
next
  case (Suc d)
  show ?case
  proof (cases "i < length (middlewares srv)")
    case False
    then show ?thesis using Suc.prems(1) by auto
  next
    case True
    then have "passes_on (middlewares srv ! i)" using m by simp
    with Suc.prems(1) obtain rq1 rs1 where
      h: "handler (middlewares srv ! i) rq rs = AwaitNext (rq1, rs1) Finish"
      and p: "http_method rq1 = http_method rq" "pathname rq1 = pathname rq"
      and s: "sent (wrapped rs1) = None"
      unfolding passes_on_def by blast
    have "length (middlewares srv) - Suc i < d" using Suc.prems(2) True by simp
    from Suc.IH[OF s this, of rq1] obtain j rq' rs' where
      n: "next_middleware d srv (Suc i) (rq1, rs1) = (j, executeRoute srv rq' rs')"
      and q: "http_method rq' = http_method rq1" "pathname rq' = pathname rq1"
        "sent (wrapped rs') = None"
      by blast
    have "next_middleware (Suc d) srv i (rq, rs) = (j, executeRoute srv rq' rs')"
      using True by (simp add: h n)
    then show ?thesis using p q by auto
  qed
qed




subsection \<open>Dispatch and error answers\<close>

text \<open>The header names and values that the server itself writes are valid.\<close>

lemma valid_names [simp]:
  "valid_header_name ''Content-Type''"
  "valid_header_name ''Access-Control-Allow-Origin''"
  "valid_header_name ''Access-Control-Allow-Methods''"
  "valid_header_name ''Access-Control-Allow-Headers''"
  "valid_header_name ''Access-Control-Allow-Credentials''"
  "valid_header_name ''X-Seen''"
  by (simp_all add: valid_header_name_def token_char_def)

lemma valid_values [simp]:
  "valid_header_value ''application/json''"
  "valid_header_value ''text/plain''"
  "valid_header_value ''*''"
  "valid_header_value ''GET, POST, PUT, DELETE, PATCH, OPTIONS''"
  "valid_header_value ''Content-Type, Authorization, X-Requested-With''"
  "valid_header_value ''true''"
  "valid_header_value ''yes''"
  by (simp_all add: valid_header_value_def header_char_def)

lemma line_feed_is_invalid [simp]: "\<not> valid_header_value [CHR ''a'', CHR 0x0A, CHR ''b'']"
  by (simp add: valid_header_value_def header_char_def)

lemma origin_text_default [simp]: "cors cfg = None \<Longrightarrow> origin_text cfg = ''*''"
  by (simp add: origin_text_def)

lemma createResponse_wrapped [simp]: "createResponse (wrapped response) = response"
  by (cases response) simp

lemma executeRoute_no_route:
  "no_route srv (http_method rq) (pathname rq) \<Longrightarrow>
     executeRoute srv rq rs = ((rq, rs), Some (TypeError ''response.setHeader is not a function''))"
  by (simp add: executeRoute_def no_route_def)

lemma sendErrorResponse_fresh:
  assumes "sent res = None" and "100 \<le> st" and "st \<le> 999"
  shows "snd (sendErrorResponse (Node res) st message) = None"
    and "answers_error (fst (sendErrorResponse (Node res) st message)) st message"
  using assms by (simp_all add: answers_error_def end_response_def setHeader_def)

lemma sendErrorResponse_after_answer:
  assumes "sent res \<noteq> None"
  shows "sendErrorResponse (Node res) st message = (res\<lparr>statusCode := st\<rparr>, Some HeadersSent)"
  using assms by (auto simp: setHeader_def)

lemma applyCORSHeaders_sent:
  "sent (wrapped (fst (applyCORSHeaders cfg (createResponse res)))) = sent res"
  by (simp add: applyCORSHeaders_def setHeader_def Let_def)

lemma applyCORSHeaders_fresh:
  assumes "sent res = None" and "valid_header_value (origin_text cfg)"
  shows "snd (applyCORSHeaders cfg (createResponse res)) = None"
    and "sent (wrapped (fst (applyCORSHeaders cfg (createResponse res)))) = None"
    and "statusCode (wrapped (fst (applyCORSHeaders cfg (createResponse res)))) = statusCode res"
    and "map_of (res_headers (wrapped (fst (applyCORSHeaders cfg (createResponse res)))))
           ''Access-Control-Allow-Methods'' = Some ''GET, POST, PUT, DELETE, PATCH, OPTIONS''"
    and "map_of (res_headers (wrapped (fst (applyCORSHeaders cfg (createResponse res)))))
           ''Access-Control-Allow-Headers'' = Some ''Content-Type, Authorization, X-Requested-With''"
    and "map_of (res_headers (wrapped (fst (applyCORSHeaders cfg (createResponse res)))))
           ''Access-Control-Allow-Origin'' \<noteq> None"
    and "cors cfg = None \<Longrightarrow>
         map_of (res_headers (wrapped (fst (applyCORSHeaders cfg (createResponse res)))))
           ''Access-Control-Allow-Origin'' = Some ''*''"
  using assms
  by (simp_all add: applyCORSHeaders_def setHeader_def Let_def map_of_map_set)

lemma applyCORSHeaders_new_response:
  assumes "valid_header_value (origin_text (config srv))"
  shows "applyCORSHeaders (config srv) (createResponse new_response) = (cors_response srv, None)"
  using applyCORSHeaders_fresh(1)[of new_response "config srv"] assms
  by (simp add: cors_response_def new_response_def prod_eq_iff)

lemma cors_response_fresh: "sent (wrapped (cors_response srv)) = None"
  by (simp add: cors_response_def applyCORSHeaders_sent new_response_def)

lemma exception_is_answered_500:
  assumes "handleRequest P srv req res = (res', Some e)" and "sent res' = None"
  shows "answers_error (fst (createServer P srv req res)) 500 ''Internal Server Error'' \<and>
         snd (createServer P srv req res) = None"
  using assms sendErrorResponse_fresh[OF assms(2), of 500] by (simp add: createServer_def)

lemma exception_after_answer:
  assumes "handleRequest P srv req res = (res', Some e)" and "sent res' \<noteq> None"
  shows "createServer P srv req res = (res'\<lparr>statusCode := 500\<rparr>, Some HeadersSent)"
  using assms sendErrorResponse_after_answer[OF assms(2)] by (simp add: createServer_def)

lemma handleRequest_chain:
  assumes "parseRequest P req = Inr rq" and "http_method rq \<noteq> ''OPTIONS''"
    and "valid_header_value (origin_text (config srv))"
  shows "handleRequest P srv req new_response =
           (case next_middleware (Suc (length (middlewares srv))) srv 0 (rq, cors_response srv) of
              (i, (rq', rs'), e) \<Rightarrow> (wrapped rs', e))"
  using assms by (simp add: handleRequest_def applyCORSHeaders_new_response)

lemma unmatched_request_is_answered_500:
  assumes p: "parseRequest P req = Inr rq" and o: "http_method rq \<noteq> ''OPTIONS''"
    and v: "valid_header_value (origin_text (config srv))"
    and m: "\<forall>mw \<in> set (middlewares srv). passes_on mw"
    and n: "no_route srv (http_method rq) (pathname rq)"
  shows "answers_error (fst (createServer P srv req new_response)) 500 ''Internal Server Error''"
proof -
  have "length (middlewares srv) - 0 < Suc (length (middlewares srv))" by simp
  from next_middleware_passes_on[OF m cors_response_fresh this, of rq]
  obtain j rq' rs' where
    c: "next_middleware (Suc (length (middlewares srv))) srv 0 (rq, cors_response srv)
      = (j, executeRoute srv rq' rs')"
    and e: "http_method rq' = http_method rq" "pathname rq' = pathname rq"
    and s: "sent (wrapped rs') = None"
    by blast
  have "executeRoute srv rq' rs' = ((rq', rs'), Some (TypeError ''response.setHeader is not a function''))"
    using n e by (simp add: executeRoute_no_route)
  then have "handleRequest P srv req new_response =
      (wrapped rs', Some (TypeError ''response.setHeader is not a function''))"
    using c by (simp add: handleRequest_chain[OF p o v])
  from exception_is_answered_500[OF this s] show ?thesis by blast
qed


text \<open>
  C3. The claim's own example on the code: with \<^verbatim>\<open>GET /users/:id\<close> as the only
  registered route, the request \<^verbatim>\<open>GET /users/42\<close> matches nothing and the handler is not
  invoked, whatever the handler is. \<^verbatim>\<open>findParameterizedRoute\<close> splits the key
  \<^verbatim>\<open>GET:/users/:id\<close> at every colon and keeps \<^verbatim>\<open>/users/\<close> as the pattern, and
  \<^verbatim>\<open>matchRoute\<close> refuses the empty first segment of every path that begins with a slash
  (lemma \<open>matchRoute_leading_slash\<close>), so no parameterised route ever matches such a path.
  The dispatch step then throws instead of answering 404: it calls \<^verbatim>\<open>sendErrorResponse\<close>
  on the wrapper, which has no \<^verbatim>\<open>setHeader\<close>; request and response are left as they
  were. The same holds for \<^verbatim>\<open>GET /users/42/extra\<close>.
\<close>

theorem parameterised_route_is_not_matched:
  "findParameterizedRoute
     (routes (registerRoute \<lparr>config = cfg, routes = [], middlewares = mws\<rparr> Get ''/users/:id'' h))
     ''GET'' ''/users/42'' = None \<and>
   executeRoute
     (registerRoute \<lparr>config = cfg, routes = [], middlewares = mws\<rparr> Get ''/users/:id'' h)
     (request\<lparr>http_method := ''GET'', pathname := ''/users/42''\<rparr>) response =
   ((request\<lparr>http_method := ''GET'', pathname := ''/users/42''\<rparr>, response),
    Some (TypeError ''response.setHeader is not a function'')) \<and>
   executeRoute
     (registerRoute \<lparr>config = cfg, routes = [], middlewares = mws\<rparr> Get ''/users/:id'' h)
     (request\<lparr>http_method := ''GET'', pathname := ''/users/42/extra''\<rparr>) response =
   ((request\<lparr>http_method := ''GET'', pathname := ''/users/42/extra''\<rparr>, response),
    Some (TypeError ''response.setHeader is not a function''))"
  by (simp add: executeRoute_def registerRoute_def matchRoute_def)


text \<open>
  C4. The code on a request that matches no route: \<^verbatim>\<open>GET /missing\<close> on a server without
  routes, whose one middleware passes control on. The dispatch step calls
  \<^verbatim>\<open>sendErrorResponse\<close> on the response wrapper, which has no \<^verbatim>\<open>setHeader\<close>; the
  \<^verbatim>\<open>TypeError\<close> is caught by the listener, and the answer is 500 with
  \<^verbatim>\<open>{error: "Internal Server Error"}\<close>, not 404 with \<^verbatim>\<open>{error: "Not Found"}\<close>. Lemma
  \<open>unmatched_request_is_answered_500\<close> shows the same for every unmatched request that
  reaches the dispatch step through middlewares that pass on, on a server whose CORS
  origin is a valid header value. Lemma \<open>exception_is_answered_500\<close> is the half of the
  claim that holds: what \<^verbatim>\<open>handleRequest\<close> throws before anything has been sent is
  answered with that 500; after an answer has been sent the client keeps it (lemma
  \<open>exception_after_answer\<close>).
\<close>

theorem unmatched_request_is_not_answered_404:
  "no_route plain_server ''GET'' ''/missing'' \<and>
   snd (handleRequest example_platform plain_server (request_for ''GET'' ''/missing'' [] []) new_response) =
     Some (TypeError ''response.setHeader is not a function'') \<and>
   createServer example_platform plain_server (request_for ''GET'' ''/missing'' [] []) new_response =
     (\<lparr>statusCode = 500,
       res_headers = [(''Access-Control-Allow-Origin'', ''*''),
                      (''Access-Control-Allow-Methods'', ''GET, POST, PUT, DELETE, PATCH, OPTIONS''),
                      (''Access-Control-Allow-Headers'', ''Content-Type, Authorization, X-Requested-With''),
                      (''X-Seen'', ''yes''),
                      (''Content-Type'', ''application/json'')],
       sent = Some
         \<lparr>ans_status = 500,
          ans_headers = [(''Access-Control-Allow-Origin'', ''*''),
                         (''Access-Control-Allow-Methods'', ''GET, POST, PUT, DELETE, PATCH, OPTIONS''),
                         (''Access-Control-Allow-Headers'', ''Content-Type, Authorization, X-Requested-With''),
                         (''X-Seen'', ''yes''),
                         (''Content-Type'', ''application/json'')],
          ans_body = Stringified (JObject [(''error'', JString ''Internal Server Error'')])\<rparr>\<rparr>,
      None)"
  by (simp add: no_route_def plain_server_def createServer_def handleRequest_def parseRequest_def
        example_platform_def request_for_def fromEntries_def logging_middleware_def
        executeRoute_def applyCORSHeaders_def new_response_def setHeader_def end_response_def)

subsection \<open>Request bodies\<close>

lemma str_includes_Nil [simp]: "\<not> str_includes [] ''application/json''"
  by simp

lemma parseBody_cases:
  assumes "req_error req = None"
  shows "parseBody P req =
     (if json_content_type req
      then (if buffered_body req = [] then Inr (JObject [])
            else (case JSON_parse P (buffered_body req) of
                    Some v \<Rightarrow> Inr v | None \<Rightarrow> Inl SyntaxError))
      else Inr (JString (buffered_body req)))"
  using assms
  by (auto simp: parseBody_def json_content_type_def buffered_body_def Let_def split: option.splits)

lemma parse_failure_is_answered_500:
  assumes "parseRequest P req = Inl e"
  shows "handleRequest P srv req new_response = (new_response, Some e)"
    and "snd (createServer P srv req new_response) = None"
    and "answers_error (fst (createServer P srv req new_response)) 500 ''Internal Server Error''"
proof -
  show h: "handleRequest P srv req new_response = (new_response, Some e)"
    using assms by (simp add: handleRequest_def)
  have "sent new_response = None" by (simp add: new_response_def)
  from exception_is_answered_500[OF h this]
  show "snd (createServer P srv req new_response) = None"
    and "answers_error (fst (createServer P srv req new_response)) 500 ''Internal Server Error''"
    by blast+
qed


text \<open>
  C7 (as amended). For a POST, PUT or PATCH request whose request target parses as a URL
  and whose body stream ends without an error, the body handed on is built from all the
  chunks before the middleware chain starts: whenever parsing succeeds, what
  \<^verbatim>\<open>handleRequest\<close> does next is to apply the CORS headers and to run the chain on the
  parsed request. With a content type containing \<^verbatim>\<open>application/json\<close>, a non-empty
  body is the value \<^verbatim>\<open>JSON.parse\<close> returns, an empty body is the empty object, and a
  body that \<^verbatim>\<open>JSON.parse\<close> rejects makes the request fail with the 500 answer. Without
  such a content type the body is the raw string.
\<close>

theorem body_is_buffered_and_parsed:
  assumes m: "req_method req \<in> body_methods" and e: "req_error req = None"
    and u: "URL_parse P (req_url req) (base_url req) = Some (path, sp)"
  shows "(json_content_type req \<and> buffered_body req \<noteq> [] \<and>
            JSON_parse P (buffered_body req) = Some v \<longrightarrow>
            (\<exists>rq. parseRequest P req = Inr rq \<and> body rq = Some v)) \<and>
         (json_content_type req \<and> buffered_body req = [] \<longrightarrow>
            (\<exists>rq. parseRequest P req = Inr rq \<and> body rq = Some (JObject []))) \<and>
         (json_content_type req \<and> buffered_body req \<noteq> [] \<and>
            JSON_parse P (buffered_body req) = None \<longrightarrow>
            parseRequest P req = Inl SyntaxError \<and>
            handleRequest P srv req new_response = (new_response, Some SyntaxError) \<and>
            snd (createServer P srv req new_response) = None \<and>
            answers_error (fst (createServer P srv req new_response)) 500 ''Internal Server Error'') \<and>
         (\<not> json_content_type req \<longrightarrow>
            (\<exists>rq. parseRequest P req = Inr rq \<and>
               body rq = Some (JString (buffered_body req)))) \<and>
         (\<forall>rq. parseRequest P req = Inr rq \<longrightarrow>
            handleRequest P srv req new_response =
              (case applyCORSHeaders (config srv) (createResponse new_response) of
                 (response, Some err) \<Rightarrow> (wrapped response, Some err)
               | (response, None) \<Rightarrow>
                   (case next_middleware (Suc (length (middlewares srv))) srv 0 (rq, response) of
                      (i, (rq', rs'), err) \<Rightarrow> (wrapped rs', err))))"
proof -
  have m': "req_method req = ''POST'' \<or> req_method req = ''PUT'' \<or> req_method req = ''PATCH''"
    using m by (simp add: body_methods_def)
  have no: "req_method req \<noteq> ''OPTIONS''" using m' by auto
  have pr: "parseRequest P req =
     (case parseBody P req of
        Inl e \<Rightarrow> Inl e
      | Inr b \<Rightarrow> Inr \<lparr>http_method = req_method req, url = req_url req, pathname = path,
                    headers = req_headers req, body = Some b, params = [],
                    query = fromEntries sp\<rparr>)"
    using m' u by (auto simp: parseRequest_def base_url_def split: sum.splits)
  note pb = parseBody_cases[OF e, of P]
  show ?thesis
  proof (intro conjI impI allI)
    assume a: "json_content_type req \<and> buffered_body req \<noteq> [] \<and>
            JSON_parse P (buffered_body req) = Some v"
    then have "parseBody P req = Inr v" by (simp add: pb)
    then show "\<exists>rq. parseRequest P req = Inr rq \<and> body rq = Some v"
      by (simp add: pr)
  next
    assume "json_content_type req \<and> buffered_body req = []"
    then have "parseBody P req = Inr (JObject [])" by (simp add: pb)
    then show "\<exists>rq. parseRequest P req = Inr rq \<and> body rq = Some (JObject [])"
      by (simp add: pr)
  next
    assume a: "json_content_type req \<and> buffered_body req \<noteq> [] \<and>
            JSON_parse P (buffered_body req) = None"
    then have "parseBody P req = Inl SyntaxError" by (simp add: pb)
    then show p: "parseRequest P req = Inl SyntaxError" by (simp add: pr)
    from parse_failure_is_answered_500[OF p, of srv]
    show "handleRequest P srv req new_response = (new_response, Some SyntaxError)"
      and "snd (createServer P srv req new_response) = None"
      and "answers_error (fst (createServer P srv req new_response)) 500 ''Internal Server Error''"
      by blast+
  next
    assume "\<not> json_content_type req"
    then have "parseBody P req = Inr (JString (buffered_body req))" by (simp add: pb)
    then show "\<exists>rq. parseRequest P req = Inr rq \<and>
               body rq = Some (JString (buffered_body req))"
      by (simp add: pr)
  next
    fix rq assume p: "parseRequest P req = Inr rq"
    then have "http_method rq = req_method req"
      by (auto simp: pr split: sum.splits)
    then have "http_method rq \<noteq> ''OPTIONS''" using no by simp
    then show "handleRequest P srv req new_response =
              (case applyCORSHeaders (config srv) (createResponse new_response) of
                 (response, Some err) \<Rightarrow> (wrapped response, Some err)
               | (response, None) \<Rightarrow>
                   (case next_middleware (Suc (length (middlewares srv))) srv 0 (rq, response) of
                      (i, (rq', rs'), err) \<Rightarrow> (wrapped rs', err)))"
      using p by (simp add: handleRequest_def split: prod.split option.split)
  qed
qed


theorem body_is_buffered_and_parsed_witness:
  "(\<exists>rq. parseRequest example_platform
           (request_for ''POST'' ''/items'' [(''content-type'', ''application/json; charset=utf-8'')]
              [''{\"a'', ''\":1}'']) = Inr rq \<and>
         body rq = Some (JObject [(''a'', JNumber 1)])) \<and>
   (\<exists>rq. parseRequest example_platform
           (request_for ''POST'' ''/items'' [(''content-type'', ''application/json; charset=utf-8'')]
              []) = Inr rq \<and>
         body rq = Some (JObject [])) \<and>
   answers_error
     (fst (createServer example_platform plain_server
        (request_for ''POST'' ''/items'' [(''content-type'', ''application/json; charset=utf-8'')]
           [''{oops''])
        new_response))
     500 ''Internal Server Error'' \<and>
   (\<exists>rq. parseRequest example_platform
           (request_for ''POST'' ''/items'' [(''content-type'', ''text/plain'')] [''{\"a'', ''\":1}''])
            = Inr rq \<and>
         body rq = Some (JString ''{\"a\":1}''))"
proof -
  let ?js = "[(''content-type'', ''application/json; charset=utf-8'')]"
  have j: "json_content_type (request_for m u ?js cs)" for m u cs
    by (simp add: json_content_type_def request_for_def)
  have nj: "\<not> json_content_type (request_for m u [(''content-type'', ''text/plain'')] cs)" for m u cs
    by (simp add: json_content_type_def request_for_def)
  have m: "req_method (request_for ''POST'' u hs cs) \<in> body_methods" for u hs cs
    by (simp add: body_methods_def request_for_def)
  have e: "req_error (request_for m u hs cs) = None" for m u hs cs
    by (simp add: request_for_def)
  have u: "URL_parse example_platform (req_url (request_for m ''/items'' hs cs))
              (base_url (request_for m ''/items'' hs cs)) = Some (''/items'', [])"
    for m hs cs
    by (simp add: example_platform_def request_for_def)
  note inst = body_is_buffered_and_parsed[OF m e u]
  have c1: "buffered_body (request_for m u hs [''{\"a'', ''\":1}'']) = ''{\"a\":1}''" for m u hs
    by (simp add: request_for_def buffered_body_def)
  have c2: "buffered_body (request_for m u hs []) = []" for m u hs
    by (simp add: request_for_def buffered_body_def)
  have c3: "buffered_body (request_for m u hs [''{oops'']) = ''{oops''" for m u hs
    by (simp add: request_for_def buffered_body_def)
  have p1: "JSON_parse example_platform ''{\"a\":1}'' = Some (JObject [(''a'', JNumber 1)])"
    by (simp add: example_platform_def)
  have p3: "JSON_parse example_platform ''{oops'' = None"
    by (simp add: example_platform_def)
  have a: "\<exists>rq. parseRequest example_platform (request_for ''POST'' ''/items'' ?js [''{\"a'', ''\":1}'']) = Inr rq \<and>
         body rq = Some (JObject [(''a'', JNumber 1)])"
    using inst[of ?js "[''{\"a'', ''\":1}'']" "JObject [(''a'', JNumber 1)]" plain_server]
      j c1 p1 by auto
  have b: "\<exists>rq. parseRequest example_platform (request_for ''POST'' ''/items'' ?js []) = Inr rq \<and>
         body rq = Some (JObject [])"
    using inst[of ?js "[]" undefined plain_server] j c2 by auto
  have c: "answers_error
     (fst (createServer example_platform plain_server (request_for ''POST'' ''/items'' ?js [''{oops''])
        new_response)) 500 ''Internal Server Error''"
    using inst[of ?js "[''{oops'']" undefined plain_server] j c3 p3 by auto
  have d: "\<exists>rq. parseRequest example_platform
           (request_for ''POST'' ''/items'' [(''content-type'', ''text/plain'')] [''{\"a'', ''\":1}''])
            = Inr rq \<and> body rq = Some (JString ''{\"a\":1}'')"
    using inst[of "[(''content-type'', ''text/plain'')]" "[''{\"a'', ''\":1}'']" undefined plain_server]
      nj c1 by auto
  show ?thesis using a b c d by blast
qed


text \<open>
  C7 as stated fails for a request whose target does not parse and for one whose body
  stream fails. \<^verbatim>\<open>parseRequest\<close> calls \<^verbatim>\<open>new URL\<close> before it reads the body, so a POST
  to \<^verbatim>\<open>//\<close> with a JSON content type and an empty body is answered 500 and no
  \<^verbatim>\<open>request.body\<close> is built, where the claim has the empty object. A stream that fails
  after a chunk is answered 500 as well, where the claim has the raw body passed on.
\<close>

theorem body_is_not_read_counterexample:
  "req_method (request_for ''POST'' ''//'' [(''content-type'', ''application/json'')] []) \<in> body_methods \<and>
   json_content_type (request_for ''POST'' ''//'' [(''content-type'', ''application/json'')] []) \<and>
   buffered_body (request_for ''POST'' ''//'' [(''content-type'', ''application/json'')] []) = [] \<and>
   parseRequest example_platform
     (request_for ''POST'' ''//'' [(''content-type'', ''application/json'')] []) = Inl InvalidURL \<and>
   createServer example_platform plain_server
     (request_for ''POST'' ''//'' [(''content-type'', ''application/json'')] []) new_response =
     (\<lparr>statusCode = 500, res_headers = [(''Content-Type'', ''application/json'')],
       sent = Some \<lparr>ans_status = 500, ans_headers = [(''Content-Type'', ''application/json'')],
                    ans_body = Stringified (JObject [(''error'', JString ''Internal Server Error'')])\<rparr>\<rparr>,
      None) \<and>
   parseRequest example_platform
     ((request_for ''POST'' ''/items'' [(''content-type'', ''text/plain'')] [''partial''])
        \<lparr>req_error := Some ''aborted''\<rparr>) = Inl (StreamError ''aborted'') \<and>
   createServer example_platform plain_server
     ((request_for ''POST'' ''/items'' [(''content-type'', ''text/plain'')] [''partial''])
        \<lparr>req_error := Some ''aborted''\<rparr>) new_response =
     (\<lparr>statusCode = 500, res_headers = [(''Content-Type'', ''application/json'')],
       sent = Some \<lparr>ans_status = 500, ans_headers = [(''Content-Type'', ''application/json'')],
                    ans_body = Stringified (JObject [(''error'', JString ''Internal Server Error'')])\<rparr>\<rparr>,
      None)"
  by (simp add: body_methods_def json_content_type_def buffered_body_def request_for_def
        parseRequest_def parseBody_def example_platform_def createServer_def handleRequest_def
        new_response_def setHeader_def end_response_def)


subsection \<open>Preflight requests and route registration\<close>

lemma map_set_length: "map_has kvs k \<Longrightarrow> length (map_set kvs k v) = length kvs"
  by (induction kvs) (auto simp: map_has_def)


text \<open>
  C8 (as amended). On a server whose configured CORS origin is a valid header value,
  an OPTIONS request whose request target parses as a URL is answered with status 200,
  the CORS headers and an empty text body, and nothing escapes the listener. The answer
  is the same whatever routes and middlewares are registered: none of them is invoked.
\<close>

theorem options_preflight:
  assumes m: "req_method req = ''OPTIONS''"
    and u: "URL_parse P (req_url req) (base_url req) = Some (path, sp)"
    and v: "valid_header_value (origin_text (config srv))"
  shows "createServer P srv req new_response =
           (wrapped (fst (send (status (cors_response srv) 200) [])), None) \<and>
         (\<exists>a. sent (fst (createServer P srv req new_response)) = Some a \<and>
            ans_status a = 200 \<and> ans_body a = Text [] \<and>
            map_of (ans_headers a) ''Access-Control-Allow-Methods'' =
              Some ''GET, POST, PUT, DELETE, PATCH, OPTIONS'' \<and>
            map_of (ans_headers a) ''Access-Control-Allow-Headers'' =
              Some ''Content-Type, Authorization, X-Requested-With'' \<and>
            map_of (ans_headers a) ''Access-Control-Allow-Origin'' \<noteq> None \<and>
            (cors (config srv) = None \<longrightarrow>
               map_of (ans_headers a) ''Access-Control-Allow-Origin'' = Some ''*'')) \<and>
         createServer P (srv\<lparr>routes := rts, middlewares := mws\<rparr>) req new_response =
           createServer P srv req new_response"
proof -
  have pr: "parseRequest P req =
     Inr \<lparr>http_method = ''OPTIONS'', url = req_url req, pathname = path,
          headers = req_headers req, body = None, params = [], query = fromEntries sp\<rparr>"
    using m u by (simp add: parseRequest_def base_url_def)
  have sd: "snd (send (status (cors_response srv') 200) []) = None" for srv'
  proof -
    obtain res' where r': "cors_response srv' = createResponse res'"
      by (cases "cors_response srv'")
    have "sent res' = None" using cors_response_fresh[of srv'] by (simp add: r')
    then show ?thesis by (simp add: r' setHeader_def end_response_def)
  qed
  have h: "handleRequest P srv' req new_response =
             (wrapped (fst (send (status (cors_response srv') 200) [])), None)"
    if "valid_header_value (origin_text (config srv'))" for srv'
    using sd[of srv'] that
    by (simp add: handleRequest_def pr applyCORSHeaders_new_response split_beta)
  have c: "createServer P srv' req new_response =
             (wrapped (fst (send (status (cors_response srv') 200) [])), None)"
    if "valid_header_value (origin_text (config srv'))"
    for srv'
    using that by (simp add: createServer_def h)
  have c1: "createServer P srv req new_response =
             (wrapped (fst (send (status (cors_response srv) 200) [])), None)"
    using v by (rule c)
  have c2: "createServer P (srv\<lparr>routes := rts, middlewares := mws\<rparr>) req new_response =
             (wrapped (fst (send (status (cors_response (srv\<lparr>routes := rts, middlewares := mws\<rparr>)) 200) [])), None)"
    using v by (intro c) simp
  have cr: "cors_response (srv\<lparr>routes := rts, middlewares := mws\<rparr>) = cors_response srv"
    by (simp add: cors_response_def)
  obtain res where r: "cors_response srv = createResponse res" by (cases "cors_response srv")
  have rs: "sent res = None" using cors_response_fresh[of srv] by (simp add: r)
  have hd: "map_of (res_headers res) ''Access-Control-Allow-Methods'' =
              Some ''GET, POST, PUT, DELETE, PATCH, OPTIONS''"
    "map_of (res_headers res) ''Access-Control-Allow-Headers'' =
              Some ''Content-Type, Authorization, X-Requested-With''"
    "map_of (res_headers res) ''Access-Control-Allow-Origin'' \<noteq> None"
    "cors (config srv) = None \<Longrightarrow> map_of (res_headers res) ''Access-Control-Allow-Origin'' = Some ''*''"
    using applyCORSHeaders_fresh(4,5,6,7)[of new_response "config srv"] r v
    by (simp_all add: cors_response_def new_response_def)
  show ?thesis
    unfolding c1 c2 cr
    using rs hd by (simp add: r setHeader_def end_response_def map_of_map_set)
qed


theorem options_preflight_witness:
  "createServer example_platform plain_server (request_for ''OPTIONS'' ''/nowhere'' [] []) new_response =
     (\<lparr>statusCode = 200,
       res_headers = [(''Access-Control-Allow-Origin'', ''*''),
                      (''Access-Control-Allow-Methods'', ''GET, POST, PUT, DELETE, PATCH, OPTIONS''),
                      (''Access-Control-Allow-Headers'', ''Content-Type, Authorization, X-Requested-With''),
                      (''Content-Type'', ''text/plain'')],
       sent = Some
         \<lparr>ans_status = 200,
          ans_headers = [(''Access-Control-Allow-Origin'', ''*''),
                      (''Access-Control-Allow-Methods'', ''GET, POST, PUT, DELETE, PATCH, OPTIONS''),
                      (''Access-Control-Allow-Headers'', ''Content-Type, Authorization, X-Requested-With''),
                      (''Content-Type'', ''text/plain'')],
          ans_body = Text []\<rparr>\<rparr>,
      None)"
proof -
  let ?req = "request_for ''OPTIONS'' ''/nowhere'' [] []"
  have m: "req_method ?req = ''OPTIONS''" by (simp add: request_for_def)
  have u: "URL_parse example_platform (req_url ?req) (base_url ?req) = Some (''/nowhere'', [])"
    by (simp add: example_platform_def request_for_def)
  have v: "valid_header_value (origin_text (config plain_server))"
    by (simp add: plain_server_def)
  from options_preflight[OF m u v]
  have "createServer example_platform plain_server ?req new_response =
          (wrapped (fst (send (status (cors_response plain_server) 200) [])), None)"
    by blast
  then show ?thesis
    by (simp add: end_response_def setHeader_def applyCORSHeaders_def cors_response_def
          plain_server_def new_response_def)
qed


text \<open>
  C8 as stated fails for an OPTIONS request whose target does not parse:
  \<^verbatim>\<open>handleRequest\<close> parses the request before it applies the CORS headers and before it
  tests the method, so \<^verbatim>\<open>OPTIONS //\<close> is answered 500 with
  \<^verbatim>\<open>{error: "Internal Server Error"}\<close> and without any CORS header. It also fails on a
  server whose configured origin is not a valid header value (here it contains a line
  feed): the first \<^verbatim>\<open>setHeader\<close> of \<^verbatim>\<open>applyCORSHeaders\<close> throws, and every request,
  OPTIONS included, gets that 500.
\<close>

theorem options_is_answered_500_counterexample:
  "req_method (request_for ''OPTIONS'' ''//'' [] []) = ''OPTIONS'' \<and>
   parseRequest example_platform (request_for ''OPTIONS'' ''//'' [] []) = Inl InvalidURL \<and>
   createServer example_platform plain_server (request_for ''OPTIONS'' ''//'' [] []) new_response =
     (\<lparr>statusCode = 500, res_headers = [(''Content-Type'', ''application/json'')],
       sent = Some \<lparr>ans_status = 500, ans_headers = [(''Content-Type'', ''application/json'')],
                    ans_body = Stringified (JObject [(''error'', JString ''Internal Server Error'')])\<rparr>\<rparr>,
      None) \<and>
   \<not> valid_header_value (origin_text (config broken_origin_server)) \<and>
   handleRequest example_platform broken_origin_server (request_for ''OPTIONS'' ''/nowhere'' [] [])
     new_response = (new_response, Some InvalidChar) \<and>
   createServer example_platform broken_origin_server (request_for ''OPTIONS'' ''/nowhere'' [] [])
     new_response =
     (\<lparr>statusCode = 500, res_headers = [(''Content-Type'', ''application/json'')],
       sent = Some \<lparr>ans_status = 500, ans_headers = [(''Content-Type'', ''application/json'')],
                    ans_body = Stringified (JObject [(''error'', JString ''Internal Server Error'')])\<rparr>\<rparr>,
      None)"
  by (simp add: request_for_def parseRequest_def example_platform_def createServer_def
        handleRequest_def new_response_def setHeader_def end_response_def
        broken_origin_server_def origin_text_def applyCORSHeaders_def fromEntries_def)

text \<open>
  C10. \<^verbatim>\<open>HttpServer.registerRoute\<close> cannot fail. After it, the key of the method and
  path maps to the handler just registered, also when the key was present before (the
  entry is replaced, the table does not grow), and a request with that method and path is
  dispatched to that handler. \<^verbatim>\<open>RouteManager.register\<close> instead raises on a key that is
  present, so registering the same method and path twice fails the second time.
\<close>

theorem registerRoute_replaces_handler:
  "map_of (routes (registerRoute srv m path h)) (toUpperCase m @ '':'' @ path) = Some h \<and>
   (http_method rq = toUpperCase m \<and> pathname rq = path \<longrightarrow>
      executeRoute (registerRoute srv m path h) rq rs = h rq rs) \<and>
   (map_has (routes srv) (toUpperCase m @ '':'' @ path) \<longrightarrow>
      length (routes (registerRoute srv m path h)) = length (routes srv)) \<and>
   (map_has (rm_routes rm) (toUpperCase m @ '':'' @ path) \<longrightarrow>
      RouteManager_register rm m path h' opts =
        Inl (RouteAlreadyRegistered (toUpperCase m @ '':'' @ path))) \<and>
   (RouteManager_register rm m path h1 o1 = Inr rm' \<longrightarrow>
      RouteManager_register rm' m path h2 o2 =
        Inl (RouteAlreadyRegistered (toUpperCase m @ '':'' @ path)))"
proof (intro conjI impI)
  show a: "map_of (routes (registerRoute srv m path h)) (toUpperCase m @ '':'' @ path) = Some h"
    by (simp add: registerRoute_def map_of_map_set)
  show "executeRoute (registerRoute srv m path h) rq rs = h rq rs"
    if "http_method rq = toUpperCase m \<and> pathname rq = path"
    using that a by (simp add: executeRoute_def)
  show "length (routes (registerRoute srv m path h)) = length (routes srv)"
    if "map_has (routes srv) (toUpperCase m @ '':'' @ path)"
    using that by (simp add: registerRoute_def map_set_length)
  show "RouteManager_register rm m path h' opts =
        Inl (RouteAlreadyRegistered (toUpperCase m @ '':'' @ path))"
    if "map_has (rm_routes rm) (toUpperCase m @ '':'' @ path)"
    using that by (simp add: RouteManager_register_def)
  show "RouteManager_register rm' m path h2 o2 =
        Inl (RouteAlreadyRegistered (toUpperCase m @ '':'' @ path))"
    if "RouteManager_register rm m path h1 o1 = Inr rm'"
  proof -
    from that have "map_has (rm_routes rm') (toUpperCase m @ '':'' @ path)"
      by (auto simp: RouteManager_register_def Let_def map_has_def map_of_map_set split: if_splits)
    then show ?thesis by (simp add: RouteManager_register_def)
  qed
qed


theorem registerRoute_replaces_handler_witness:
  "executeRoute
     (registerRoute (registerRoute plain_server Get ''/health'' (reply ''first''))
        Get ''/health'' (reply ''second''))
     health_request (createResponse new_response) =
     ((health_request,
       createResponse
         \<lparr>statusCode = 200, res_headers = [(''Content-Type'', ''application/json'')],
          sent = Some
            \<lparr>ans_status = 200, ans_headers = [(''Content-Type'', ''application/json'')],
             ans_body = Stringified (JObject [(''served_by'', JString ''second'')])\<rparr>\<rparr>),
      None) \<and>
   length (routes (registerRoute (registerRoute plain_server Get ''/health'' (reply ''first''))
        Get ''/health'' (reply ''second''))) = 1 \<and>
   RouteManager_register
     \<lparr>rm_routes = [(''GET:/health'',
                     \<lparr>route_method = Get, route_path = ''/health'', route_handler = reply ''first'',
                      route_middleware = [], route_description = None, route_tags = []\<rparr>)],
      routeGroups = []\<rparr>
     Get ''/health'' (reply ''second'') None = Inl (RouteAlreadyRegistered ''GET:/health'')"
proof -
  let ?srv = "registerRoute plain_server Get ''/health'' (reply ''first'')"
  let ?rm = "\<lparr>rm_routes = [(''GET:/health'',
                     \<lparr>route_method = Get, route_path = ''/health'', route_handler = reply ''first'',
                      route_middleware = [], route_description = None, route_tags = []\<rparr>)],
      routeGroups = []\<rparr>"
  have m: "http_method health_request = toUpperCase Get \<and> pathname health_request = ''/health''"
    by (simp add: health_request_def)
  have k: "map_has (routes ?srv) (toUpperCase Get @ '':'' @ ''/health'')"
    by (simp add: registerRoute_def plain_server_def map_has_def)
  have k': "map_has (rm_routes ?rm) (toUpperCase Get @ '':'' @ ''/health'')"
    by (simp add: map_has_def)
  from registerRoute_replaces_handler[of ?srv Get "''/health''" "reply ''second''" health_request
         "createResponse new_response" ?rm "reply ''second''" None] m k k'
  have "executeRoute (registerRoute ?srv Get ''/health'' (reply ''second'')) health_request
            (createResponse new_response)
          = reply ''second'' health_request (createResponse new_response)"
    and "length (routes (registerRoute ?srv Get ''/health'' (reply ''second''))) = length (routes ?srv)"
    and "RouteManager_register ?rm Get ''/health'' (reply ''second'') None =
           Inl (RouteAlreadyRegistered (toUpperCase Get @ '':'' @ ''/health''))"
    by blast+
  then show ?thesis
    by (simp add: reply_def end_response_def setHeader_def
          new_response_def registerRoute_def plain_server_def)
qed

subsection \<open>Middleware order\<close>

















end
